theory Spec2Isabelle
  imports Complex_Main "HOL-Library.Multiset" "HOL-Library.Sublist"
begin

section \<open>Numbers of the source language\<close>

text \<open>
  The coordinates and the threshold are JavaScript numbers, that is, IEEE 754 binary64
  values. A number is NaN, one of the two infinities, or a finite double, written
  \<open>Fin x\<close> for the real \<open>x\<close> it denotes. The sign of zero, which no comparison
  observes, is not modelled.
\<close>

datatype jsnum = NaN | NInf | Fin real | PInf

text \<open>
  Rounding to the nearest double, ties to even. A real \<open>x\<close> with
  \<open>2 ^ e \<le> \<bar>x\<bar> < 2 ^ (e + 1)\<close> is rounded to a multiple of \<open>2 ^ (e - 52)\<close>, the
  unit in the last place of its binade; for \<open>e < - 1022\<close> the unit stays
  \<open>2 ^ (- 1074)\<close> (the subnormal range). A rounded value of magnitude \<open>2 ^ 1024\<close>
  or more is an infinity.
\<close>

definition round_half_even :: "real \<Rightarrow> int" where
  "round_half_even r =
     (let f = \<lfloor>r\<rfloor> in
        if r - of_int f < 1 / 2 then f
        else if 1 / 2 < r - of_int f then f + 1
        else if even f then f else f + 1)"

definition ulp_exp :: "real \<Rightarrow> int" where
  "ulp_exp x = max \<lfloor>log 2 \<bar>x\<bar>\<rfloor> (- 1022) - 52"

definition fl :: "real \<Rightarrow> jsnum" where
  "fl x =
     (if x = 0 then Fin 0
      else let r = of_int (round_half_even (x / 2 powr of_int (ulp_exp x)))
                     * 2 powr of_int (ulp_exp x)
           in if 2 ^ 1024 \<le> r then PInf
              else if r \<le> - (2 ^ 1024) then NInf
              else Fin r)"

text \<open>
  The operations the memo applies. Subtraction, addition and multiplication of finite
  doubles return the rounded exact result. \<open>Math.pow\<close> (modelled for a natural
  exponent; the pass uses the exponent 2), \<open>Math.sqrt\<close>, \<open>Math.sin\<close> and
  \<open>Math.cos\<close> are taken to return the correctly rounded result. The comparison
  \<open><\<close> is false as soon as an operand is NaN.
\<close>

fun js_sub :: "jsnum \<Rightarrow> jsnum \<Rightarrow> jsnum" where
  "js_sub NaN _ = NaN"
| "js_sub _ NaN = NaN"
| "js_sub (Fin a) (Fin b) = fl (a - b)"
| "js_sub (Fin a) PInf = NInf"
| "js_sub (Fin a) NInf = PInf"
| "js_sub PInf PInf = NaN"
| "js_sub PInf _ = PInf"
| "js_sub NInf NInf = NaN"
| "js_sub NInf _ = NInf"

fun js_add :: "jsnum \<Rightarrow> jsnum \<Rightarrow> jsnum" where
  "js_add NaN _ = NaN"
| "js_add _ NaN = NaN"
| "js_add (Fin a) (Fin b) = fl (a + b)"
| "js_add (Fin a) PInf = PInf"
| "js_add (Fin a) NInf = NInf"
| "js_add PInf NInf = NaN"
| "js_add PInf _ = PInf"
| "js_add NInf PInf = NaN"
| "js_add NInf _ = NInf"

fun js_mul :: "jsnum \<Rightarrow> jsnum \<Rightarrow> jsnum" where
  "js_mul NaN _ = NaN"
| "js_mul _ NaN = NaN"
| "js_mul (Fin a) (Fin b) = fl (a * b)"
| "js_mul (Fin a) PInf = (if a = 0 then NaN else if 0 < a then PInf else NInf)"
| "js_mul (Fin a) NInf = (if a = 0 then NaN else if 0 < a then NInf else PInf)"
| "js_mul PInf (Fin b) = (if b = 0 then NaN else if 0 < b then PInf else NInf)"
| "js_mul NInf (Fin b) = (if b = 0 then NaN else if 0 < b then NInf else PInf)"
| "js_mul PInf PInf = PInf"
| "js_mul PInf NInf = NInf"
| "js_mul NInf PInf = NInf"
| "js_mul NInf NInf = PInf"

definition Math_pow :: "jsnum \<Rightarrow> nat \<Rightarrow> jsnum" where
  "Math_pow v n =
     (if n = 0 then Fin 1
      else case v of
             NaN \<Rightarrow> NaN
           | Fin a \<Rightarrow> fl (a ^ n)
           | PInf \<Rightarrow> PInf
           | NInf \<Rightarrow> (if even n then PInf else NInf))"

fun Math_sqrt :: "jsnum \<Rightarrow> jsnum" where
  "Math_sqrt NaN = NaN"
| "Math_sqrt NInf = NaN"
| "Math_sqrt (Fin a) = (if a < 0 then NaN else fl (sqrt a))"
| "Math_sqrt PInf = PInf"

fun Math_sin :: "jsnum \<Rightarrow> jsnum" where
  "Math_sin (Fin a) = fl (sin a)"
| "Math_sin _ = NaN"

fun Math_cos :: "jsnum \<Rightarrow> jsnum" where
  "Math_cos (Fin a) = fl (cos a)"
| "Math_cos _ = NaN"

fun js_lt :: "jsnum \<Rightarrow> jsnum \<Rightarrow> bool" where
  "js_lt NaN _ = False"
| "js_lt _ NaN = False"
| "js_lt (Fin a) (Fin b) = (a < b)"
| "js_lt (Fin a) PInf = True"
| "js_lt (Fin a) NInf = False"
| "js_lt NInf NInf = False"
| "js_lt NInf _ = True"
| "js_lt PInf _ = False"

section \<open>Data model (src/types.ts)\<close>

datatype MarkerType = History | Anomaly | Sensor | POI

record MarkerData =
  m_id :: string
  m_label :: string
  m_description :: string
  m_type :: MarkerType
  m_x :: jsnum
  m_y :: jsnum
  m_thumbnailUrl :: "string option"

record HistoryEntry =
  h_id :: string
  h_location :: string
  h_timestamp :: string
  h_imageUrl :: "string option"
  h_style :: "string option"

section \<open>The clustering pass (src/App.tsx, the \<open>clusters\<close> memo)\<close>

definition CLUSTER_THRESHOLD :: jsnum where
  "CLUSTER_THRESHOLD = Fin 12"

text \<open>The value of \<open>dist\<close> computed for the anchor \<open>m1\<close> and a candidate \<open>m2\<close>.\<close>

definition dist_m :: "MarkerData \<Rightarrow> MarkerData \<Rightarrow> jsnum" where
  "dist_m m1 m2 =
     Math_sqrt (js_add (Math_pow (js_sub (m_x m1) (m_x m2)) 2)
                       (Math_pow (js_sub (m_y m1) (m_y m2)) 2))"

text \<open>
  The body of the inner \<open>forEach\<close>: the state is the group under construction and the
  set of used ids. A candidate whose id is used is skipped; otherwise it is pushed and
  its id added exactly when \<open>dist < threshold\<close>.
\<close>

definition inner_step ::
  "jsnum \<Rightarrow> MarkerData \<Rightarrow> MarkerData \<Rightarrow> MarkerData list \<times> string set
     \<Rightarrow> MarkerData list \<times> string set" where
  "inner_step t m1 m2 st =
     (case st of (currentGroup, used) \<Rightarrow>
        if m_id m2 \<in> used then (currentGroup, used)
        else if js_lt (dist_m m1 m2) t then (currentGroup @ [m2], insert (m_id m2) used)
        else (currentGroup, used))"

text \<open>
  The body of the outer \<open>forEach\<close>: the state is the result list and the set of used
  ids. A marker whose id is used is skipped; otherwise it starts a group, its id is
  added, the inner loop runs over the whole marker list, and the group is pushed.
\<close>

definition outer_step ::
  "jsnum \<Rightarrow> MarkerData list \<Rightarrow> MarkerData \<Rightarrow> MarkerData list list \<times> string set
     \<Rightarrow> MarkerData list list \<times> string set" where
  "outer_step t historyMarkers m1 st =
     (case st of (result, used) \<Rightarrow>
        if m_id m1 \<in> used then (result, used)
        else (case fold (inner_step t m1) historyMarkers ([m1], insert (m_id m1) used) of
                (currentGroup, used') \<Rightarrow> (result @ [currentGroup], used')))"

text \<open>
  The two loops, started with an empty result and an empty used set. The threshold is a
  parameter here; the memo runs the pass with \<open>CLUSTER_THRESHOLD\<close>.
\<close>

definition cluster :: "jsnum \<Rightarrow> MarkerData list \<Rightarrow> MarkerData list list" where
  "cluster t historyMarkers = fst (fold (outer_step t historyMarkers) historyMarkers ([], {}))"

text \<open>
  The marker list the memo builds from the history: entries 1 to 10 of the history
  (\<open>history.slice(1, 11)\<close>), each mapped with its index to a marker. The index is
  at most 9, so \<open>idx * 25\<close> and its remainder are exact.
\<close>

definition mkMarker :: "nat \<times> HistoryEntry \<Rightarrow> MarkerData" where
  "mkMarker p =
     (case p of (idx, entry) \<Rightarrow>
        \<lparr> m_id = h_id entry,
          m_label = ''Echo: '' @ h_location entry,
          m_description = ''Temporal fracture detected from RAI capture at '' @ h_timestamp entry
             @ ''. Restore this timeline to revisit coordinates.'',
          m_type = History,
          m_x = js_add (js_add (Fin 10) (Fin (real ((idx * 25) mod 80))))
                       (js_mul (Math_sin (Fin (real idx))) (Fin 8)),
          m_y = js_add (Fin 40) (js_mul (Math_cos (Fin (real idx))) (Fin 20)),
          m_thumbnailUrl = h_imageUrl entry \<rparr>)"

definition slice :: "nat \<Rightarrow> nat \<Rightarrow> 'a list \<Rightarrow> 'a list" where
  "slice start end xs = take (end - start) (drop start xs)"

definition historyMarkers :: "HistoryEntry list \<Rightarrow> MarkerData list" where
  "historyMarkers history = map mkMarker (enumerate 0 (slice 1 11 history))"

definition clusters :: "bool \<Rightarrow> bool \<Rightarrow> HistoryEntry list \<Rightarrow> MarkerData list list" where
  "clusters loading imageLoading history =
     (if loading \<or> imageLoading \<or> length history \<le> 1 then []
      else cluster CLUSTER_THRESHOLD (historyMarkers history))"

section \<open>Closed forms of the two loops\<close>

text \<open>
  \<open>inner_picks\<close> lists the markers one run of the inner loop pushes, given the used ids
  at its start; \<open>outer_groups\<close> lists the groups the outer loop pushes over a remaining
  part of the marker list. Both are shown below to agree with the folds.
\<close>

fun inner_picks :: "jsnum \<Rightarrow> MarkerData \<Rightarrow> string set \<Rightarrow> MarkerData list \<Rightarrow> MarkerData list" where
  "inner_picks t m1 used [] = []"
| "inner_picks t m1 used (m2 # xs) =
     (if m_id m2 \<in> used then inner_picks t m1 used xs
      else if js_lt (dist_m m1 m2) t then m2 # inner_picks t m1 (insert (m_id m2) used) xs
      else inner_picks t m1 used xs)"

fun outer_groups ::
  "jsnum \<Rightarrow> MarkerData list \<Rightarrow> string set \<Rightarrow> MarkerData list \<Rightarrow> MarkerData list list" where
  "outer_groups t ms used [] = []"
| "outer_groups t ms used (m1 # xs) =
     (if m_id m1 \<in> used then outer_groups t ms used xs
      else (m1 # inner_picks t m1 (insert (m_id m1) used) ms)
           # outer_groups t ms
               (insert (m_id m1) used \<union> m_id ` set (inner_picks t m1 (insert (m_id m1) used) ms)) xs)"

section \<open>Notions used to state the claims\<close>

text \<open>The position of the first occurrence of a marker in the input list.\<close>

definition input_pos :: "'a list \<Rightarrow> 'a \<Rightarrow> nat" where
  "input_pos xs x = length (takeWhile (\<lambda>y. y \<noteq> x) xs)"

text \<open>
  The singleton rule as the specification words it: a group is a singleton if and only
  if its first marker is within the threshold of no marker of the groups before it.
\<close>

definition spec_singleton_rule :: "jsnum \<Rightarrow> MarkerData list \<Rightarrow> bool" where
  "spec_singleton_rule t ms =
     (\<forall>k < length (cluster t ms).
        (length (cluster t ms ! k) = 1)
          = (\<forall>m' \<in> set (concat (take k (cluster t ms))).
               \<not> js_lt (dist_m (hd (cluster t ms ! k)) m') t))"

section \<open>The pass on a store of objects and arrays\<close>

text \<open>
  The same pass with the markers and the arrays held in a store, to follow what it
  writes. A marker object and an array are addressed by their index in the store; an
  array holds references. A new array is allocated at the end of the store; \<open>push\<close>
  appends to the array at an address. Reading through a reference outside the store
  has no result (\<open>None\<close>). The store has no operation that writes a marker object,
  as the pass assigns to no field of a marker. The used set is local to the pass and
  holds strings, so it stays a value of the loop state.
\<close>

record heap =
  objs :: "MarkerData list"
  arrs :: "nat list list"

definition get_obj :: "heap \<Rightarrow> nat \<Rightarrow> MarkerData option" where
  "get_obj h r = (if r < length (objs h) then Some (objs h ! r) else None)"

definition get_arr :: "heap \<Rightarrow> nat \<Rightarrow> nat list option" where
  "get_arr h a = (if a < length (arrs h) then Some (arrs h ! a) else None)"

definition new_arr :: "heap \<Rightarrow> nat list \<Rightarrow> heap \<times> nat" where
  "new_arr h xs = (h\<lparr>arrs := arrs h @ [xs]\<rparr>, length (arrs h))"

definition push :: "heap \<Rightarrow> nat \<Rightarrow> nat \<Rightarrow> heap option" where
  "push h a r =
     (if a < length (arrs h) then Some (h\<lparr>arrs := (arrs h)[a := arrs h ! a @ [r]]\<rparr>)
      else None)"

text \<open>
  \<open>Array.prototype.forEach\<close>: the length is read once, before the first call; the
  element at each index is read from the store as it is when the index is reached, and
  an index that is no longer in the array is passed over.
\<close>

fun forEach_loop ::
  "nat \<Rightarrow> (nat \<Rightarrow> heap \<times> 's \<Rightarrow> (heap \<times> 's) option) \<Rightarrow> nat \<Rightarrow> nat \<Rightarrow> heap \<times> 's
     \<Rightarrow> (heap \<times> 's) option" where
  "forEach_loop a body k 0 st = Some st"
| "forEach_loop a body k (Suc n) st =
     (case get_arr (fst st) a of
        None \<Rightarrow> None
      | Some xs \<Rightarrow>
          if k < length xs then
            (case body (xs ! k) st of
               None \<Rightarrow> None
             | Some st' \<Rightarrow> forEach_loop a body (Suc k) n st')
          else forEach_loop a body (Suc k) n st)"

definition forEach ::
  "nat \<Rightarrow> (nat \<Rightarrow> heap \<times> 's \<Rightarrow> (heap \<times> 's) option) \<Rightarrow> heap \<times> 's \<Rightarrow> (heap \<times> 's) option" where
  "forEach a body st =
     (case get_arr (fst st) a of
        None \<Rightarrow> None
      | Some xs \<Rightarrow> forEach_loop a body 0 (length xs) st)"

definition inner_body ::
  "jsnum \<Rightarrow> nat \<Rightarrow> nat \<Rightarrow> nat \<Rightarrow> heap \<times> string set \<Rightarrow> (heap \<times> string set) option" where
  "inner_body t m1 currentGroup m2 st =
     (case st of (h, used) \<Rightarrow>
        (case get_obj h m2 of
           None \<Rightarrow> None
         | Some o2 \<Rightarrow>
             if m_id o2 \<in> used then Some (h, used)
             else (case get_obj h m1 of
                     None \<Rightarrow> None
                   | Some o1 \<Rightarrow>
                       if js_lt (dist_m o1 o2) t then
                         (case push h currentGroup m2 of
                            None \<Rightarrow> None
                          | Some h' \<Rightarrow> Some (h', insert (m_id o2) used))
                       else Some (h, used))))"

definition outer_body ::
  "jsnum \<Rightarrow> nat \<Rightarrow> nat \<Rightarrow> nat \<Rightarrow> heap \<times> string set \<Rightarrow> (heap \<times> string set) option" where
  "outer_body t markers result m1 st =
     (case st of (h, used) \<Rightarrow>
        (case get_obj h m1 of
           None \<Rightarrow> None
         | Some o1 \<Rightarrow>
             if m_id o1 \<in> used then Some (h, used)
             else (case new_arr h [m1] of
                     (h1, currentGroup) \<Rightarrow>
                       (case forEach markers (inner_body t m1 currentGroup)
                               (h1, insert (m_id o1) used) of
                          None \<Rightarrow> None
                        | Some (h2, used') \<Rightarrow>
                            (case push h2 result currentGroup of
                               None \<Rightarrow> None
                             | Some h3 \<Rightarrow> Some (h3, used'))))))"

definition cluster_heap :: "jsnum \<Rightarrow> nat \<Rightarrow> heap \<Rightarrow> (heap \<times> nat) option" where
  "cluster_heap t markers h =
     (case new_arr h [] of
        (h0, result) \<Rightarrow>
          (case forEach markers (outer_body t markers result) (h0, {}) of
             None \<Rightarrow> None
           | Some (h', used) \<Rightarrow> Some (h', result)))"

text \<open>
  A store is well formed for an input array when the array is in the store and each of
  its elements refers to a marker object of the store.
\<close>

definition wf_input :: "heap \<Rightarrow> nat \<Rightarrow> bool" where
  "wf_input h a = (a < length (arrs h) \<and> list_all (\<lambda>r. r < length (objs h)) (arrs h ! a))"

text \<open>The markers an array of the store refers to, and the groups an array of arrays refers to.\<close>

definition markers_of :: "heap \<Rightarrow> nat \<Rightarrow> MarkerData list" where
  "markers_of h a = map (\<lambda>r. objs h ! r) (arrs h ! a)"

definition groups_of :: "heap \<Rightarrow> nat \<Rightarrow> MarkerData list list" where
  "groups_of h a = map (markers_of h) (arrs h ! a)"

text \<open>
  What holds of the store between two rounds of the outer loop: the input array lies
  below the result array, its elements refer to marker objects, and the result array
  refers to arrays allocated after it.
\<close>

definition outer_inv :: "nat \<Rightarrow> nat \<Rightarrow> heap \<Rightarrow> bool" where
  "outer_inv a res h =
     (a < res \<and> res < length (arrs h)
      \<and> list_all (\<lambda>r. r < length (objs h)) (arrs h ! a)
      \<and> list_all (\<lambda>g. res < g \<and> g < length (arrs h)) (arrs h ! res))"

section \<open>Sample markers\<close>

definition mk :: "string \<Rightarrow> real \<Rightarrow> real \<Rightarrow> MarkerData" where
  "mk i a b =
     \<lparr> m_id = i, m_label = i, m_description = [], m_type = History,
       m_x = Fin a, m_y = Fin b, m_thumbnailUrl = None \<rparr>"

definition mkNaN :: "string \<Rightarrow> MarkerData" where
  "mkNaN i =
     \<lparr> m_id = i, m_label = i, m_description = [], m_type = History,
       m_x = NaN, m_y = Fin 0, m_thumbnailUrl = None \<rparr>"

definition sample_heap :: heap where
  "sample_heap =
     \<lparr> objs = [mk ''A'' 0 0, mk ''B'' 10 0, mk ''C'' 20 0], arrs = [[0, 1, 2]] \<rparr>"

text \<open>The same three markers at other addresses, behind an unrelated array.\<close>

definition sample_heap_moved :: heap where
  "sample_heap_moved =
     \<lparr> objs = [mk ''C'' 20 0, mk ''A'' 0 0, mk ''B'' 10 0], arrs = [[], [1, 2, 0]] \<rparr>"

text \<open>A store with a marker that has a NaN coordinate.\<close>

definition sample_heap_NaN :: heap where
  "sample_heap_NaN =
     \<lparr> objs = [mk ''A'' 0 0, mkNaN ''N'', mk ''B'' 1 1], arrs = [[0, 1, 2]] \<rparr>"

text \<open>
  Two markers at the boundary of the threshold. Their coordinates are the doubles
  written 4.8, 40.6, 16.742152355122737 and 39.4231409910119.
\<close>

definition boundary_A :: MarkerData where
  "boundary_A = mk ''A'' (5404319552844595 / 2 ^ 50) (5713942027226317 / 2 ^ 47)"

definition boundary_B :: MarkerData where
  "boundary_B = mk ''B'' (4712496944244427 / 2 ^ 48) (5548313846152991 / 2 ^ 47)"

section \<open>Rounding\<close>

lemma round_half_even_near: "\<bar>r - of_int m\<bar> < 1 / 2 \<Longrightarrow> round_half_even r = m"
proof -
  assume a: "\<bar>r - of_int m\<bar> < 1 / 2"
  show ?thesis
  proof (cases "of_int m \<le> r")
    case True
    with a have "\<lfloor>r\<rfloor> = m" by (intro floor_unique) linarith+
    with a True show ?thesis by (simp add: round_half_even_def)
  next
    case False
    from a False have "of_int (m - 1) \<le> r" and "r < of_int (m - 1) + 1"
      unfolding of_int_diff of_int_1 by linarith+
    then have f: "\<lfloor>r\<rfloor> = m - 1" by (rule floor_unique)
    from a False have "1 / 2 < r - of_int (m - 1)"
      unfolding of_int_diff of_int_1 by linarith
    with f show ?thesis by (simp add: round_half_even_def Let_def)
  qed
qed

lemma round_half_even_of_int: "round_half_even (of_int m) = m"
  by (rule round_half_even_near) simp

lemma ulp_exp_binade:
  "2 powr of_int e \<le> \<bar>x\<bar> \<Longrightarrow> \<bar>x\<bar> < 2 powr of_int (e + 1) \<Longrightarrow> - 1022 \<le> e \<Longrightarrow> ulp_exp x = e - 52"
proof -
  assume a: "2 powr of_int e \<le> \<bar>x\<bar>" "\<bar>x\<bar> < 2 powr of_int (e + 1)" "- 1022 \<le> e"
  from a(1) have "0 < \<bar>x\<bar>" by (rule less_le_trans [rotated]) simp
  then have "\<lfloor>log 2 \<bar>x\<bar>\<rfloor> = e"
    using a(1,2) by (simp add: floor_log_eq_powr_iff)
  with a(3) show ?thesis by (simp add: ulp_exp_def)
qed

lemma fl_round:
  assumes "2 powr of_int e \<le> \<bar>x\<bar>" and "\<bar>x\<bar> < 2 powr of_int (e + 1)"
    and "- 1022 \<le> e" and "e \<le> 1022"
    and m: "round_half_even (x / 2 powr of_int (e - 52)) = m"
    and "\<bar>m\<bar> \<le> 2 ^ 53"
  shows "fl x = Fin (of_int m * 2 powr of_int (e - 52))"
proof -
  from assms(1) have "0 < \<bar>x\<bar>" by (rule less_le_trans [rotated]) simp
  then have x: "x \<noteq> 0" by simp
  have q: "ulp_exp x = e - 52" using assms(1-3) by (rule ulp_exp_binade)
  have "\<bar>of_int m * 2 powr of_int (e - 52) :: real\<bar> = \<bar>of_int m\<bar> * 2 powr of_int (e - 52)"
    by (simp add: abs_mult)
  also have "\<dots> \<le> 2 ^ 53 * 2 powr of_int (e - 52)"
  proof (rule mult_right_mono)
    from assms(6) have "of_int \<bar>m\<bar> \<le> (of_int (2 ^ 53) :: real)" by (simp only: of_int_le_iff)
    then show "\<bar>of_int m :: real\<bar> \<le> 2 ^ 53" by simp
  qed simp
  also have "\<dots> = 2 powr of_int (e + 1)"
  proof -
    have "real_of_int (e + 1) = 53 + of_int (e - 52)" by simp
    then have "(2::real) powr of_int (e + 1) = 2 powr (53 + of_int (e - 52))" by (rule arg_cong)
    also have "\<dots> = 2 powr 53 * 2 powr of_int (e - 52)" by (rule powr_add)
    finally show ?thesis by simp
  qed
  also have "\<dots> \<le> 2 powr 1023" using assms(4) by (intro powr_mono) simp_all
  also have "\<dots> < 2 ^ 1024" by simp
  finally have "\<bar>of_int m * 2 powr of_int (e - 52) :: real\<bar> < 2 ^ 1024" .
  then have "\<not> (2 ^ 1024 :: real) \<le> of_int m * 2 powr of_int (e - 52)"
    and "\<not> (of_int m * 2 powr of_int (e - 52) :: real) \<le> - (2 ^ 1024)"
    by linarith+
  with x q m show ?thesis by (simp add: fl_def)
qed

lemma fl_cert:
  assumes "2 powr of_int e \<le> \<bar>x\<bar>" and "\<bar>x\<bar> < 2 powr of_int (e + 1)"
    and "- 1022 \<le> e" and "e \<le> 1022"
    and "\<bar>x / 2 powr of_int (e - 52) - of_int m\<bar> < 1 / 2"
    and "\<bar>m\<bar> \<le> 2 ^ 53"
  shows "fl x = Fin (of_int m * 2 powr of_int (e - 52))"
proof -
  from assms(5) have "round_half_even (x / 2 powr of_int (e - 52)) = m"
    by (rule round_half_even_near)
  from assms(1-4) this assms(6) show ?thesis by (rule fl_round)
qed

lemma fl_exact:
  assumes "2 powr of_int e \<le> \<bar>x\<bar>" and "\<bar>x\<bar> < 2 powr of_int (e + 1)"
    and "- 1022 \<le> e" and "e \<le> 1022"
    and "x = of_int m * 2 powr of_int (e - 52)"
  shows "fl x = Fin x"
proof -
  have p: "0 < (2::real) powr of_int (e - 52)" by simp
  have d: "x / 2 powr of_int (e - 52) = of_int m"
    using p by (simp add: assms(5))
  have "\<bar>real_of_int m\<bar> * 2 powr of_int (e - 52) = \<bar>x\<bar>"
    by (simp add: assms(5) abs_mult)
  also have "\<dots> < 2 powr of_int (e + 1)" by (rule assms(2))
  also have "\<dots> = 2 ^ 53 * 2 powr of_int (e - 52)"
  proof -
    have "real_of_int (e + 1) = 53 + of_int (e - 52)" by simp
    then have "(2::real) powr of_int (e + 1) = 2 powr (53 + of_int (e - 52))" by (rule arg_cong)
    also have "\<dots> = 2 powr 53 * 2 powr of_int (e - 52)" by (rule powr_add)
    finally show ?thesis by simp
  qed
  finally have "\<bar>real_of_int m\<bar> < 2 ^ 53" using p by (simp only: mult_less_cancel_right_pos)
  then have "real_of_int \<bar>m\<bar> < real_of_int (2 ^ 53)" by simp
  then have "\<bar>m\<bar> < 2 ^ 53" by (simp only: of_int_less_iff)
  then have m: "\<bar>m\<bar> \<le> 2 ^ 53" by simp
  have "\<bar>x / 2 powr of_int (e - 52) - of_int m\<bar> < 1 / 2" unfolding d by simp
  from fl_cert [OF assms(1-4) this m] show ?thesis by (simp only: assms(5) [symmetric])
qed

lemma fl_int:
  assumes "x \<in> \<int>" and "\<bar>x\<bar> < 2 ^ 53"
  shows "fl x = Fin x"
proof (cases "x = 0")
  case True
  then show ?thesis by (simp add: fl_def)
next
  case False
  from assms(1) obtain n where n: "x = of_int n" by (auto elim: Ints_cases)
  with False have "n \<noteq> 0" by auto
  then have "1 \<le> \<bar>n\<bar>" by simp
  then have "real_of_int 1 \<le> real_of_int \<bar>n\<bar>" by (simp only: of_int_le_iff)
  then have one: "1 \<le> \<bar>x\<bar>" by (simp add: n)
  define e where "e = \<lfloor>log 2 \<bar>x\<bar>\<rfloor>"
  from one have pos: "0 < \<bar>x\<bar>" by simp
  have "\<lfloor>log 2 \<bar>x\<bar>\<rfloor> = e" by (simp add: e_def)
  then have b: "2 powr of_int e \<le> \<bar>x\<bar>" "\<bar>x\<bar> < 2 powr of_int (e + 1)"
    using pos by (simp_all only: floor_log_eq_powr_iff [of "\<bar>x\<bar>" 2 e, OF pos] semiring_norm)
  have "(2::real) powr 0 \<le> \<bar>x\<bar>" using one by simp
  also note b(2)
  finally have "(0::real) < of_int (e + 1)" by (simp only: powr_less_cancel_iff semiring_norm)
  then have e0: "0 \<le> e" by simp
  note b(1)
  also note assms(2)
  also have "(2::real) ^ 53 = 2 powr 53" by simp
  finally have "real_of_int e < 53" by (simp only: powr_less_cancel_iff semiring_norm)
  then have e52: "e \<le> 52" by simp
  define k where "k = nat (52 - e)"
  have "real_of_int (e - 52) = - real k" using e52 by (simp add: k_def)
  then have "(2::real) powr of_int (e - 52) = 2 powr (- real k)" by (rule arg_cong)
  also have "\<dots> = 1 / 2 ^ k" by (simp add: powr_minus_divide powr_realpow)
  finally have p: "(2::real) powr of_int (e - 52) = 1 / 2 ^ k" .
  have x: "x = of_int (n * 2 ^ k) * 2 powr of_int (e - 52)"
    unfolding p n by simp
  from e0 e52 have "- 1022 \<le> e" "e \<le> 1022" by simp_all
  from fl_exact [OF b this x] show ?thesis .
qed

lemma fl_sqrt_cert:
  assumes "(2 powr of_int e)\<^sup>2 \<le> s" and "s < (2 powr of_int (e + 1))\<^sup>2"
    and "- 1022 \<le> e" and "e \<le> 1022"
    and "((of_int m - 1 / 2) * 2 powr of_int (e - 52))\<^sup>2 < s"
    and "s < ((of_int m + 1 / 2) * 2 powr of_int (e - 52))\<^sup>2"
    and "0 < m" and "m \<le> 2 ^ 53"
  shows "fl (sqrt s) = Fin (of_int m * 2 powr of_int (e - 52))"
proof -
  have p: "0 < (2::real) powr of_int (e - 52)" by simp
  have "0 \<le> ((2::real) powr of_int e)\<^sup>2" by (rule zero_le_power2)
  with assms(1) have "0 \<le> s" by linarith
  then have s0: "0 \<le> sqrt s" by (rule real_sqrt_ge_zero)
  from assms(1) have lo: "2 powr of_int e \<le> \<bar>sqrt s\<bar>"
    using s0 by (simp add: real_le_rsqrt)
  from assms(2) have hi: "\<bar>sqrt s\<bar> < 2 powr of_int (e + 1)"
    using s0 by (simp add: real_less_lsqrt)
  from assms(5) have a: "(of_int m - 1 / 2) * 2 powr of_int (e - 52) < sqrt s"
    by (rule real_less_rsqrt)
  from assms(7) have "(0::real) \<le> of_int m + 1 / 2" by simp
  then have "(0::real) \<le> (of_int m + 1 / 2) * 2 powr of_int (e - 52)"
    by (intro mult_nonneg_nonneg) simp_all
  with assms(6) have b: "sqrt s < (of_int m + 1 / 2) * 2 powr of_int (e - 52)"
    by (intro real_less_lsqrt)
  from a p have a': "of_int m - 1 / 2 < sqrt s / 2 powr of_int (e - 52)"
    by (simp only: pos_less_divide_eq)
  from b p have b': "sqrt s / 2 powr of_int (e - 52) < of_int m + 1 / 2"
    by (simp only: pos_divide_less_eq)
  from a' b' have c: "\<bar>sqrt s / 2 powr of_int (e - 52) - of_int m\<bar> < 1 / 2"
    by linarith
  from assms(7,8) have m: "\<bar>m\<bar> \<le> 2 ^ 53" by simp
  from lo hi assms(3,4) c m show ?thesis by (rule fl_cert)
qed

lemma fl_0: "fl 0 = Fin 0"
  by (simp add: fl_def)

text \<open>
  The rounded value stays within half a unit in the last place of the exact one, keeps
  its sign, and passes to an infinity from \<open>2 ^ 1024\<close> on.
\<close>

lemma round_half_even_error: "\<bar>of_int (round_half_even r) - r\<bar> \<le> 1 / 2"
proof -
  have "of_int \<lfloor>r\<rfloor> \<le> r" "r < of_int \<lfloor>r\<rfloor> + 1" by linarith+
  then show ?thesis
    by (auto simp: round_half_even_def Let_def)
qed

lemma round_half_even_ge: "of_int n \<le> r \<Longrightarrow> n \<le> round_half_even r"
proof -
  assume "of_int n \<le> r"
  then have "n \<le> \<lfloor>r\<rfloor>" by (simp add: le_floor_iff)
  then show ?thesis by (auto simp: round_half_even_def Let_def)
qed

lemma round_half_even_le: "r \<le> of_int n \<Longrightarrow> round_half_even r \<le> n"
proof (cases "r = of_int n")
  case True
  then show ?thesis by (simp add: round_half_even_of_int)
next
  case False
  assume "r \<le> of_int n"
  with False have "r < of_int n" by simp
  then have "\<lfloor>r\<rfloor> < n" by (simp add: floor_less_iff)
  then show ?thesis by (auto simp: round_half_even_def Let_def)
qed

lemma fl_Fin_D:
  "fl x = Fin r \<Longrightarrow>
     r = of_int (round_half_even (x / 2 powr of_int (ulp_exp x))) * 2 powr of_int (ulp_exp x)"
  by (cases "x = 0") (auto simp: fl_def Let_def round_half_even_of_int [of 0, simplified] split: if_splits)

lemma fl_not_NaN: "fl x \<noteq> NaN"
  by (simp add: fl_def Let_def)

lemma fl_nonneg: "fl x = Fin r \<Longrightarrow> 0 \<le> x \<Longrightarrow> 0 \<le> r"
proof -
  assume a: "fl x = Fin r" and x: "0 \<le> x"
  define q where "q = ulp_exp x"
  from x have "of_int 0 \<le> x / 2 powr of_int q" by simp
  then have "0 \<le> round_half_even (x / 2 powr of_int q)" by (rule round_half_even_ge)
  then have "0 \<le> real_of_int (round_half_even (x / 2 powr of_int q)) * 2 powr of_int q"
    by simp
  with fl_Fin_D [OF a] show ?thesis by (simp add: q_def)
qed

lemma fl_NInf_D: "fl x = NInf \<Longrightarrow> x < 0"
proof (rule ccontr)
  assume a: "fl x = NInf" and "\<not> x < 0"
  then have x: "0 \<le> x" by simp
  define q where "q = ulp_exp x"
  from x have "of_int 0 \<le> x / 2 powr of_int q" by simp
  then have "0 \<le> round_half_even (x / 2 powr of_int q)" by (rule round_half_even_ge)
  then have "0 \<le> real_of_int (round_half_even (x / 2 powr of_int q)) * 2 powr of_int q"
    by simp
  then have "\<not> real_of_int (round_half_even (x / 2 powr of_int q)) * 2 powr of_int q \<le> - (2 ^ 1024)"
    by simp
  with a show False by (auto simp: fl_def Let_def q_def split: if_splits)
qed

lemma fl_magnitude:
  assumes "fl x = Fin r" and "x \<noteq> 0" and "- 1022 \<le> \<lfloor>log 2 \<bar>x\<bar>\<rfloor>"
  shows "2 powr of_int \<lfloor>log 2 \<bar>x\<bar>\<rfloor> \<le> \<bar>r\<bar>"
proof -
  define L where "L = \<lfloor>log 2 \<bar>x\<bar>\<rfloor>"
  define q where "q = L - 52"
  define M where "M = round_half_even (x / 2 powr of_int q)"
  from assms(3) have uq: "ulp_exp x = q" by (simp add: ulp_exp_def q_def L_def)
  from fl_Fin_D [OF assms(1)] have r: "r = of_int M * 2 powr of_int q"
    by (simp only: uq M_def)
  from assms(2) have pos: "0 < \<bar>x\<bar>" by simp
  have "\<lfloor>log 2 \<bar>x\<bar>\<rfloor> = L" by (simp add: L_def)
  then have lo: "2 powr of_int L \<le> \<bar>x\<bar>"
    by (simp only: floor_log_eq_powr_iff [of "\<bar>x\<bar>" 2 L, OF pos] semiring_norm)
  have p: "0 < (2::real) powr of_int q" by simp
  have split: "(2::real) powr of_int L = 2 ^ 52 * 2 powr of_int q"
  proof -
    have "real_of_int L = 52 + of_int q" by (simp add: q_def)
    then have "(2::real) powr of_int L = 2 powr (52 + of_int q)" by (rule arg_cong)
    also have "\<dots> = 2 powr 52 * 2 powr of_int q" by (rule powr_add)
    finally show ?thesis by simp
  qed
  show ?thesis
  proof (cases "0 < x")
    case True
    with lo have "2 ^ 52 * 2 powr of_int q \<le> x" by (simp add: split)
    with p have "2 ^ 52 \<le> x / 2 powr of_int q" by (simp add: pos_le_divide_eq)
    then have "of_int (2 ^ 52) \<le> x / 2 powr of_int q" by simp
    then have "2 ^ 52 \<le> M" unfolding M_def by (rule round_half_even_ge)
    then have "real_of_int (2 ^ 52) \<le> of_int M" by (simp only: of_int_le_iff)
    then have "(2::real) ^ 52 \<le> of_int M" by simp
    with p have "(2::real) ^ 52 * 2 powr of_int q \<le> of_int M * 2 powr of_int q"
      by (simp only: mult_le_cancel_right_pos)
    then have "2 powr of_int L \<le> r" by (simp only: split r)
    then show ?thesis by (simp add: L_def)
  next
    case False
    with assms(2) have "x < 0" by simp
    with lo have "x \<le> - (2 ^ 52 * 2 powr of_int q)" by (simp add: split)
    with p have "x / 2 powr of_int q \<le> - (2 ^ 52)" by (simp add: pos_divide_le_eq)
    then have "x / 2 powr of_int q \<le> of_int (- (2 ^ 52))" by simp
    then have "M \<le> - (2 ^ 52)" unfolding M_def by (rule round_half_even_le)
    then have "real_of_int M \<le> of_int (- (2 ^ 52))" by (simp only: of_int_le_iff)
    then have "of_int M \<le> - ((2::real) ^ 52)" by simp
    with p have "of_int M * 2 powr of_int q \<le> - ((2::real) ^ 52) * 2 powr of_int q"
      by (simp only: mult_le_cancel_right_pos)
    then have "r \<le> - (2 powr of_int L)" by (simp add: split r)
    then show ?thesis by (simp add: L_def)
  qed
qed

lemma fl_error:
  assumes "fl x = Fin r" and "\<bar>r\<bar> < 2 ^ 10"
  shows "\<bar>r - x\<bar> \<le> 1 / 2 ^ 44"
proof (cases "x = 0")
  case True
  with assms(1) show ?thesis by (simp add: fl_def)
next
  case False
  define L where "L = \<lfloor>log 2 \<bar>x\<bar>\<rfloor>"
  define q where "q = ulp_exp x"
  define M where "M = round_half_even (x / 2 powr of_int q)"
  have L: "L \<le> 9"
  proof (rule ccontr)
    assume "\<not> L \<le> 9"
    then have big: "10 \<le> L" by simp
    then have "- 1022 \<le> \<lfloor>log 2 \<bar>x\<bar>\<rfloor>" by (simp add: L_def)
    from fl_magnitude [OF assms(1) False this] have "2 powr of_int L \<le> \<bar>r\<bar>"
      by (simp only: L_def)
    moreover from big have "(2::real) powr 10 \<le> 2 powr of_int L" by (intro powr_mono) simp_all
    ultimately have "2 ^ 10 \<le> \<bar>r\<bar>" by simp
    with assms(2) show False by simp
  qed
  then have q: "q \<le> - 43" by (simp add: q_def ulp_exp_def L_def)
  have p: "0 < (2::real) powr of_int q" by simp
  from fl_Fin_D [OF assms(1)] have r: "r = of_int M * 2 powr of_int q"
    by (simp only: q_def M_def)
  have "r - x = (of_int M - x / 2 powr of_int q) * 2 powr of_int q"
    using p by (simp add: r algebra_simps)
  then have "\<bar>r - x\<bar> = \<bar>of_int M - x / 2 powr of_int q\<bar> * 2 powr of_int q"
    by (simp add: abs_mult)
  also have "\<dots> \<le> (1 / 2) * 2 powr of_int q"
    unfolding M_def by (intro mult_right_mono round_half_even_error) simp
  also have "\<dots> \<le> (1 / 2) * 2 powr (- 43)"
    using q by (intro mult_left_mono powr_mono) simp_all
  also have "\<dots> = 1 / 2 ^ 44" by (simp add: powr_neg_numeral)
  finally show ?thesis .
qed

lemma fl_overflow:
  assumes "2 ^ 1024 \<le> x"
  shows "fl x = PInf"
proof -
  define L where "L = \<lfloor>log 2 \<bar>x\<bar>\<rfloor>"
  define q where "q = L - 52"
  define M where "M = round_half_even (x / 2 powr of_int q)"
  have "(0::real) < 2 ^ 1024" by simp
  then have x: "0 < x" using assms by (rule less_le_trans)
  then have pos: "0 < \<bar>x\<bar>" by simp
  have "\<lfloor>log 2 \<bar>x\<bar>\<rfloor> = L" by (simp add: L_def)
  then have lo: "2 powr of_int L \<le> \<bar>x\<bar>" and hi: "\<bar>x\<bar> < 2 powr of_int (L + 1)"
    by (simp_all only: floor_log_eq_powr_iff [of "\<bar>x\<bar>" 2 L, OF pos] semiring_norm)
  have "(2::real) powr 1024 = 2 ^ 1024" by simp
  also note assms
  also have "x = \<bar>x\<bar>" using x by simp
  also note hi
  finally have "(1024::real) < of_int (L + 1)" by (simp only: powr_less_cancel_iff semiring_norm)
  then have L: "1024 \<le> L" by simp
  then have uq: "ulp_exp x = q" by (simp add: ulp_exp_def q_def L_def)
  have p: "0 < (2::real) powr of_int q" by simp
  have split: "(2::real) powr of_int L = 2 ^ 52 * 2 powr of_int q"
  proof -
    have "real_of_int L = 52 + of_int q" by (simp add: q_def)
    then have "(2::real) powr of_int L = 2 powr (52 + of_int q)" by (rule arg_cong)
    also have "\<dots> = 2 powr 52 * 2 powr of_int q" by (rule powr_add)
    finally show ?thesis by simp
  qed
  from lo x have "2 ^ 52 * 2 powr of_int q \<le> x" by (simp add: split)
  with p have "2 ^ 52 \<le> x / 2 powr of_int q" by (simp add: pos_le_divide_eq)
  then have "of_int (2 ^ 52) \<le> x / 2 powr of_int q" by simp
  then have "2 ^ 52 \<le> M" unfolding M_def by (rule round_half_even_ge)
  then have "real_of_int (2 ^ 52) \<le> of_int M" by (simp only: of_int_le_iff)
  then have "(2::real) ^ 52 \<le> of_int M" by simp
  with p have "(2::real) ^ 52 * 2 powr of_int q \<le> of_int M * 2 powr of_int q"
    by (simp only: mult_le_cancel_right_pos)
  then have "2 powr of_int L \<le> real_of_int M * 2 powr of_int q" by (simp only: split)
  moreover from L have "(2::real) powr 1024 \<le> 2 powr of_int L" by (intro powr_mono) simp_all
  ultimately have "2 ^ 1024 \<le> real_of_int M * 2 powr of_int q" by simp
  with x show ?thesis by (simp add: fl_def uq M_def)
qed

lemma fl_overflow_neg:
  assumes "x \<le> - (2 ^ 1024)"
  shows "fl x = NInf"
proof -
  define L where "L = \<lfloor>log 2 \<bar>x\<bar>\<rfloor>"
  define q where "q = L - 52"
  define M where "M = round_half_even (x / 2 powr of_int q)"
  have "- ((2::real) ^ 1024) < 0" by simp
  with assms have x: "x < 0" by (rule le_less_trans)
  then have pos: "0 < \<bar>x\<bar>" by simp
  have "\<lfloor>log 2 \<bar>x\<bar>\<rfloor> = L" by (simp add: L_def)
  then have lo: "2 powr of_int L \<le> \<bar>x\<bar>" and hi: "\<bar>x\<bar> < 2 powr of_int (L + 1)"
    by (simp_all only: floor_log_eq_powr_iff [of "\<bar>x\<bar>" 2 L, OF pos] semiring_norm)
  have "(2::real) powr 1024 = 2 ^ 1024" by simp
  also have "\<dots> \<le> \<bar>x\<bar>" using assms x by simp
  also note hi
  finally have "(1024::real) < of_int (L + 1)" by (simp only: powr_less_cancel_iff semiring_norm)
  then have L: "1024 \<le> L" by simp
  then have uq: "ulp_exp x = q" by (simp add: ulp_exp_def q_def L_def)
  have p: "0 < (2::real) powr of_int q" by simp
  have split: "(2::real) powr of_int L = 2 ^ 52 * 2 powr of_int q"
  proof -
    have "real_of_int L = 52 + of_int q" by (simp add: q_def)
    then have "(2::real) powr of_int L = 2 powr (52 + of_int q)" by (rule arg_cong)
    also have "\<dots> = 2 powr 52 * 2 powr of_int q" by (rule powr_add)
    finally show ?thesis by simp
  qed
  from lo x have "x \<le> - (2 ^ 52 * 2 powr of_int q)" by (simp add: split)
  with p have "x / 2 powr of_int q \<le> - (2 ^ 52)" by (simp add: pos_divide_le_eq)
  then have "x / 2 powr of_int q \<le> of_int (- (2 ^ 52))" by simp
  then have "M \<le> - (2 ^ 52)" unfolding M_def by (rule round_half_even_le)
  then have "real_of_int M \<le> of_int (- (2 ^ 52))" by (simp only: of_int_le_iff)
  then have "of_int M \<le> - ((2::real) ^ 52)" by simp
  with p have "of_int M * 2 powr of_int q \<le> - ((2::real) ^ 52) * 2 powr of_int q"
    by (simp only: mult_le_cancel_right_pos)
  then have "real_of_int M * 2 powr of_int q \<le> - (2 powr of_int L)" by (simp add: split)
  moreover from L have "(2::real) powr 1024 \<le> 2 powr of_int L" by (intro powr_mono) simp_all
  ultimately have le: "real_of_int M * 2 powr of_int q \<le> - (2 ^ 1024)" by simp
  then have "\<not> 2 ^ 1024 \<le> real_of_int M * 2 powr of_int q" by simp
  with x le show ?thesis by (simp add: fl_def uq M_def)
qed

section \<open>Evaluating the distance test\<close>

lemma Math_pow_2_Fin: "Math_pow (Fin a) 2 = fl (a\<^sup>2)"
  by (simp add: Math_pow_def)

lemma Math_sqrt_nonneg: "0 \<le> a \<Longrightarrow> Math_sqrt (Fin a) = fl (sqrt a)"
  by simp

lemma dist_m_Fin:
  "m_x m1 = Fin ax \<Longrightarrow> m_y m1 = Fin ay \<Longrightarrow> m_x m2 = Fin bx \<Longrightarrow> m_y m2 = Fin by \<Longrightarrow>
     dist_m m1 m2
       = Math_sqrt (js_add (Math_pow (fl (ax - bx)) 2) (Math_pow (fl (ay - by)) 2))"
  by (simp add: dist_m_def)

text \<open>On markers with small integer coordinates only the square root is rounded.\<close>

lemma square_int_bound:
  fixes d :: real
  assumes "d \<in> \<int>" and "\<bar>d\<bar> < 2 ^ 20"
  shows "d\<^sup>2 \<in> \<int>" and "d\<^sup>2 < 2 ^ 40" and "0 \<le> d\<^sup>2"
proof -
  show "d\<^sup>2 \<in> \<int>" using assms(1) by (rule Ints_power)
  from assms(2) have "\<bar>d\<bar>\<^sup>2 < (2 ^ 20)\<^sup>2" by (rule power_strict_mono) simp_all
  then show "d\<^sup>2 < 2 ^ 40" by simp
  show "0 \<le> d\<^sup>2" by simp
qed

lemma dist_m_mk:
  assumes "a \<in> \<int>" and "b \<in> \<int>" and "c \<in> \<int>" and "d \<in> \<int>"
    and "\<bar>a - c\<bar> < 2 ^ 20" and "\<bar>b - d\<bar> < 2 ^ 20"
  shows "dist_m (mk i a b) (mk j c d) = fl (sqrt ((a - c)\<^sup>2 + (b - d)\<^sup>2))"
proof -
  have dx: "a - c \<in> \<int>" using assms(1,3) by (rule Ints_diff)
  have dy: "b - d \<in> \<int>" using assms(2,4) by (rule Ints_diff)
  note px = square_int_bound [OF dx assms(5)]
  note py = square_int_bound [OF dy assms(6)]
  have 1: "fl (a - c) = Fin (a - c)" using dx assms(5) by (intro fl_int) simp_all
  have 2: "fl (b - d) = Fin (b - d)" using dy assms(6) by (intro fl_int) simp_all
  have 3: "fl ((a - c)\<^sup>2) = Fin ((a - c)\<^sup>2)" using px by (intro fl_int) simp_all
  have 4: "fl ((b - d)\<^sup>2) = Fin ((b - d)\<^sup>2)" using py by (intro fl_int) simp_all
  have "(a - c)\<^sup>2 + (b - d)\<^sup>2 \<in> \<int>" using px(1) py(1) by (rule Ints_add)
  moreover have "\<bar>(a - c)\<^sup>2 + (b - d)\<^sup>2\<bar> < 2 ^ 53" using px(2,3) py(2,3) by simp
  ultimately have 5: "fl ((a - c)\<^sup>2 + (b - d)\<^sup>2) = Fin ((a - c)\<^sup>2 + (b - d)\<^sup>2)"
    by (rule fl_int)
  have "dist_m (mk i a b) (mk j c d)
      = Math_sqrt (js_add (Math_pow (fl (a - c)) 2) (Math_pow (fl (b - d)) 2))"
    by (rule dist_m_Fin) (simp_all add: mk_def)
  also have "\<dots> = Math_sqrt (Fin ((a - c)\<^sup>2 + (b - d)\<^sup>2))"
    by (simp only: 1 2 Math_pow_2_Fin 3 4 js_add.simps 5)
  also have "\<dots> = fl (sqrt ((a - c)\<^sup>2 + (b - d)\<^sup>2))"
    by (rule Math_sqrt_nonneg) simp
  finally show ?thesis .
qed

lemma fl_sqrt_100: "fl (sqrt 100) = Fin 10"
proof -
  have "sqrt 100 = 10" by (rule real_sqrt_unique) simp_all
  then show ?thesis by (simp add: fl_int)
qed

lemma fl_sqrt_400: "fl (sqrt 400) = Fin 20"
proof -
  have "sqrt 400 = 20" by (rule real_sqrt_unique) simp_all
  then show ?thesis by (simp add: fl_int)
qed

lemma fl_sqrt_2: "fl (sqrt 2) = Fin (6369051672525773 / 2 ^ 52)"
  using fl_sqrt_cert [of 0 2 6369051672525773]
  by (simp add: powr_neg_numeral power2_eq_square)

lemma fl_sqrt_5000: "fl (sqrt 5000) = Fin (4975821619160760 / 2 ^ 46)"
  using fl_sqrt_cert [of 6 5000 4975821619160760]
  by (simp add: powr_neg_numeral power2_eq_square)

lemma fl_numeral: "numeral k < (2::real) ^ 53 \<Longrightarrow> fl (numeral k) = Fin (numeral k)"
  by (rule fl_int) simp_all

lemmas near_mk = dist_m_mk fl_sqrt_100 fl_sqrt_400 fl_sqrt_2 fl_sqrt_5000 fl_numeral fl_0

lemma m_id_mk: "m_id (mk i a b) = i"
  by (simp add: mk_def)

text \<open>
  The distance the pass computes for the two markers at the boundary: each of the six
  operations with its rounded result. The value is the double below 12.
\<close>

lemma boundary_dx:
  "fl (5404319552844595 / 2 ^ 50 - 4712496944244427 / 2 ^ 48) = Fin (- (6722834112066556 / 2 ^ 49))"
  using fl_round [of 3 "5404319552844595 / 2 ^ 50 - 4712496944244427 / 2 ^ 48" "- 6722834112066556"]
  by (simp add: powr_neg_numeral round_half_even_def)

lemma boundary_dy:
  "fl (5713942027226317 / 2 ^ 47 - 5548313846152991 / 2 ^ 47) = Fin (5300101794346432 / 2 ^ 52)"
  using fl_cert [of 0 "5713942027226317 / 2 ^ 47 - 5548313846152991 / 2 ^ 47" 5300101794346432]
  by (simp add: powr_neg_numeral)

lemma boundary_px:
  "fl ((- (6722834112066556 / 2 ^ 49))\<^sup>2) = Fin (5017819326532193 / 2 ^ 45)"
  using fl_cert [of 7 "(- (6722834112066556 / 2 ^ 49))\<^sup>2" 5017819326532193]
  by (simp add: powr_neg_numeral power2_eq_square)

lemma boundary_py:
  "fl ((5300101794346432 / 2 ^ 52)\<^sup>2) = Fin (6237472545230609 / 2 ^ 52)"
  using fl_cert [of 0 "(5300101794346432 / 2 ^ 52)\<^sup>2" 6237472545230609]
  by (simp add: powr_neg_numeral power2_eq_square)

lemma boundary_sum:
  "fl (5017819326532193 / 2 ^ 45 + 6237472545230609 / 2 ^ 52) = Fin (5066549580791807 / 2 ^ 45)"
  using fl_cert [of 7 "5017819326532193 / 2 ^ 45 + 6237472545230609 / 2 ^ 52" 5066549580791807]
  by (simp add: powr_neg_numeral)

lemma boundary_sqrt:
  "fl (sqrt (5066549580791807 / 2 ^ 45)) = Fin (6755399441055743 / 2 ^ 49)"
  using fl_sqrt_cert [of 3 "5066549580791807 / 2 ^ 45" 6755399441055743]
  by (simp add: powr_neg_numeral power2_eq_square)

lemma boundary_dist: "dist_m boundary_A boundary_B = Fin (6755399441055743 / 2 ^ 49)"
proof -
  have "dist_m boundary_A boundary_B
      = Math_sqrt (js_add
          (Math_pow (fl (5404319552844595 / 2 ^ 50 - 4712496944244427 / 2 ^ 48)) 2)
          (Math_pow (fl (5713942027226317 / 2 ^ 47 - 5548313846152991 / 2 ^ 47)) 2))"
    by (rule dist_m_Fin) (simp_all only: boundary_A_def boundary_B_def mk_def MarkerData.simps)
  also have "\<dots> = Math_sqrt (Fin (5066549580791807 / 2 ^ 45))"
    by (simp only: boundary_dx boundary_dy Math_pow_2_Fin boundary_px boundary_py
          js_add.simps boundary_sum)
  also have "\<dots> = fl (sqrt (5066549580791807 / 2 ^ 45))"
    by (rule Math_sqrt_nonneg) simp
  also note boundary_sqrt
  finally show ?thesis .
qed

lemma boundary_near: "js_lt (dist_m boundary_A boundary_B) (Fin 12)"
  by (simp add: boundary_dist)

lemma boundary_exact:
  "12 < sqrt ((5404319552844595 / 2 ^ 50 - 4712496944244427 / 2 ^ 48)\<^sup>2
            + (5713942027226317 / 2 ^ 47 - 5548313846152991 / 2 ^ 47)\<^sup>2)"
  by (rule real_less_rsqrt) (simp add: power2_eq_square)

text \<open>A marker far enough away: the square overflows, and the distance is infinite.\<close>

lemma dist_m_overflow: "dist_m (mk i 0 0) (mk j (2 ^ 600) 0) = PInf"
proof -
  have 1: "fl (0 - 2 ^ 600) = Fin (- (2 ^ 600))"
    using fl_exact [of 600 "- (2 ^ 600)" "- (2 ^ 52)"] by simp
  have 2: "fl ((- (2 ^ 600))\<^sup>2) = PInf"
    by (rule fl_overflow) simp
  have "dist_m (mk i 0 0) (mk j (2 ^ 600) 0)
      = Math_sqrt (js_add (Math_pow (fl (0 - 2 ^ 600)) 2) (Math_pow (fl (0 - 0)) 2))"
    by (rule dist_m_Fin) (simp_all add: mk_def)
  also have "\<dots> = PInf"
    by (simp only: 1 2 Math_pow_2_Fin diff_self fl_0 zero_power2 js_add.simps Math_sqrt.simps)
  finally show ?thesis .
qed

section \<open>The loops and their closed forms\<close>

lemma fold_inner_step:
  "fold (inner_step t m1) xs (g, u)
     = (g @ inner_picks t m1 u xs, u \<union> m_id ` set (inner_picks t m1 u xs))"
  by (induction xs arbitrary: g u) (auto simp: inner_step_def)

lemma outer_step_used:
  "m_id m1 \<in> u \<Longrightarrow> outer_step t ms m1 (r, u) = (r, u)"
  by (simp add: outer_step_def)

lemma outer_step_fresh:
  "m_id m1 \<notin> u \<Longrightarrow> outer_step t ms m1 (r, u)
     = (r @ [m1 # inner_picks t m1 (insert (m_id m1) u) ms],
        insert (m_id m1) u \<union> m_id ` set (inner_picks t m1 (insert (m_id m1) u) ms))"
  by (simp add: outer_step_def fold_inner_step)

lemma fold_outer_step:
  "fold (outer_step t ms) xs (r, u)
     = (r @ outer_groups t ms u xs, u \<union> m_id ` set (concat (outer_groups t ms u xs)))"
proof (induction xs arbitrary: r u)
  case Nil
  then show ?case by simp
next
  case (Cons m1 xs)
  show ?case
  proof (cases "m_id m1 \<in> u")
    case True
    then show ?thesis by (simp add: outer_step_used Cons.IH)
  next
    case False
    then show ?thesis
      by (simp add: outer_step_fresh Cons.IH Un_assoc image_Un)
  qed
qed

lemma cluster_outer_groups: "cluster t ms = outer_groups t ms {} ms"
  by (simp add: cluster_def fold_outer_step)

lemma inner_picks_subseq: "subseq (inner_picks t m1 u xs) xs"
  by (induction xs arbitrary: u) auto

lemma inner_picks_subset: "set (inner_picks t m1 u xs) \<subseteq> set xs"
  by (induction xs arbitrary: u) auto

lemma inner_picks_near:
  "m \<in> set (inner_picks t m1 u xs) \<Longrightarrow> js_lt (dist_m m1 m) t"
  by (induction xs arbitrary: u) (auto split: if_splits)

lemma inner_picks_fresh:
  "m \<in> set (inner_picks t m1 u xs) \<Longrightarrow> m_id m \<notin> u"
  by (induction xs arbitrary: u) (auto split: if_splits)

lemma inner_picks_distinct: "distinct (map m_id (inner_picks t m1 u xs))"
  by (induction xs arbitrary: u) (auto dest: inner_picks_fresh)

lemma inner_picks_Nil_iff:
  "(inner_picks t m1 u xs = []) = (\<forall>m\<in>set xs. m_id m \<notin> u \<longrightarrow> \<not> js_lt (dist_m m1 m) t)"
  by (induction xs arbitrary: u) auto

lemma inner_picks_skip:
  "m_id ` set pre \<subseteq> u \<Longrightarrow> inner_picks t m1 u (pre @ xs) = inner_picks t m1 u xs"
  by (induction pre) auto

lemma outer_groups_nonempty: "[] \<notin> set (outer_groups t ms u xs)"
  by (induction t ms u xs rule: outer_groups.induct) auto

lemma outer_groups_fresh:
  "m \<in> set (concat (outer_groups t ms u xs)) \<Longrightarrow> m_id m \<notin> u"
proof (induction t ms u xs rule: outer_groups.induct)
  case (1 t ms used)
  then show ?case by simp
next
  case (2 t ms used m1 xs)
  then show ?case
    by (auto split: if_splits dest: inner_picks_fresh)
qed

lemma outer_groups_distinct_ids: "distinct (map m_id (concat (outer_groups t ms u xs)))"
proof (induction t ms u xs rule: outer_groups.induct)
  case (1 t ms used)
  then show ?case by simp
next
  case (2 t ms used m1 xs)
  show ?case
  proof (cases "m_id m1 \<in> used")
    case True
    with 2 show ?thesis by simp
  next
    case False
    define p where "p = inner_picks t m1 (insert (m_id m1) used) ms"
    define u' where "u' = insert (m_id m1) used \<union> m_id ` set p"
    define rest where "rest = concat (outer_groups t ms u' xs)"
    have rest: "distinct (map m_id rest)"
      using 2(2) False by (simp add: rest_def u'_def p_def)
    have disj: "m_id ` set rest \<inter> u' = {}"
      using outer_groups_fresh unfolding rest_def by blast
    have p1: "m_id m1 \<notin> m_id ` set p"
      using inner_picks_fresh unfolding p_def by fastforce
    have p2: "distinct (map m_id p)"
      unfolding p_def by (rule inner_picks_distinct)
    have eq: "concat (outer_groups t ms used (m1 # xs)) = m1 # p @ rest"
      using False by (simp add: rest_def u'_def p_def)
    have "distinct (map m_id (m1 # p @ rest))"
      using rest disj p1 p2 unfolding u'_def by auto
    then show ?thesis unfolding eq .
  qed
qed

lemma outer_groups_subset:
  "set (concat (outer_groups t ms u xs)) \<subseteq> set xs \<union> set ms"
proof (induction t ms u xs rule: outer_groups.induct)
  case (1 t ms used)
  then show ?case by simp
next
  case (2 t ms used m1 xs)
  then show ?case
    using inner_picks_subset by (fastforce split: if_splits)
qed

lemma outer_groups_covers:
  "m_id ` set xs \<subseteq> u \<union> m_id ` set (concat (outer_groups t ms u xs))"
proof (induction t ms u xs rule: outer_groups.induct)
  case (1 t ms used)
  then show ?case by simp
next
  case (2 t ms used m1 xs)
  show ?case
  proof (cases "m_id m1 \<in> used")
    case True
    with 2 show ?thesis by auto
  next
    case False
    with 2(2) show ?thesis by (simp add: image_Un) blast
  qed
qed

lemma outer_groups_near:
  "g \<in> set (outer_groups t ms u xs) \<Longrightarrow> m \<in> set (tl g) \<Longrightarrow> js_lt (dist_m (hd g) m) t"
proof (induction t ms u xs rule: outer_groups.induct)
  case (1 t ms used)
  then show ?case by simp
next
  case (2 t ms used m1 xs)
  then show ?case
    by (auto split: if_splits dest: inner_picks_near)
qed

section \<open>Facts about the result of the pass\<close>

lemma cluster_nonempty: "[] \<notin> set (cluster t ms)"
  by (simp add: cluster_outer_groups outer_groups_nonempty)

lemma cluster_distinct_ids: "distinct (map m_id (concat (cluster t ms)))"
  by (simp only: cluster_outer_groups outer_groups_distinct_ids)

lemma cluster_subset: "set (concat (cluster t ms)) \<subseteq> set ms"
  using outer_groups_subset [of t ms "{}" ms] by (simp only: cluster_outer_groups Un_absorb)

lemma cluster_ids: "m_id ` set (concat (cluster t ms)) = m_id ` set ms"
proof
  show "m_id ` set (concat (cluster t ms)) \<subseteq> m_id ` set ms"
    using cluster_subset by (rule image_mono)
  show "m_id ` set ms \<subseteq> m_id ` set (concat (cluster t ms))"
    using outer_groups_covers [of ms "{}" t ms] by (simp only: cluster_outer_groups Un_empty_left)
qed

lemma cluster_distinct: "distinct (concat (cluster t ms))"
  using cluster_distinct_ids [of t ms] by (simp add: distinct_map)

lemma cluster_length: "length (concat (cluster t ms)) = card (m_id ` set ms)"
proof -
  have "length (concat (cluster t ms)) = length (map m_id (concat (cluster t ms)))"
    by simp
  also have "\<dots> = card (set (map m_id (concat (cluster t ms))))"
    using cluster_distinct_ids by (simp only: distinct_card)
  also have "\<dots> = card (m_id ` set ms)"
    by (simp only: set_map cluster_ids)
  finally show ?thesis .
qed

lemma cluster_set_eq:
  assumes "distinct (map m_id ms)"
  shows "set (concat (cluster t ms)) = set ms"
proof
  show "set (concat (cluster t ms)) \<subseteq> set ms" by (rule cluster_subset)
  show "set ms \<subseteq> set (concat (cluster t ms))"
  proof
    fix m assume m: "m \<in> set ms"
    then have "m_id m \<in> m_id ` set ms" by (rule imageI)
    then have "m_id m \<in> m_id ` set (concat (cluster t ms))"
      by (simp only: cluster_ids)
    then obtain m' where m': "m' \<in> set (concat (cluster t ms))" "m_id m = m_id m'"
      by blast
    from m'(1) cluster_subset have "m' \<in> set ms" by blast
    moreover from assms have "inj_on m_id (set ms)" by (simp add: distinct_map)
    ultimately have "m = m'" using m m'(2) by (meson inj_onD)
    with m'(1) show "m \<in> set (concat (cluster t ms))" by simp
  qed
qed

lemma cluster_mset:
  assumes "distinct (map m_id ms)"
  shows "mset (concat (cluster t ms)) = mset ms"
proof -
  from assms have "distinct ms" by (simp add: distinct_map)
  with cluster_distinct cluster_set_eq [OF assms] show ?thesis
    using set_eq_iff_mset_eq_distinct by blast
qed

lemma cluster_mset_iff: "(mset (concat (cluster t ms)) = mset ms) = distinct (map m_id ms)"
proof
  assume "mset (concat (cluster t ms)) = mset ms"
  then have "length (concat (cluster t ms)) = length ms"
    by (rule mset_eq_length)
  then have "card (set (map m_id ms)) = length (map m_id ms)"
    by (simp add: cluster_length)
  then show "distinct (map m_id ms)" by (rule card_distinct)
next
  assume "distinct (map m_id ms)"
  then show "mset (concat (cluster t ms)) = mset ms" by (rule cluster_mset)
qed

lemma distinct_concat_unique_index:
  "distinct (concat xss) \<Longrightarrow> i < length xss \<Longrightarrow> j < length xss
     \<Longrightarrow> x \<in> set (xss ! i) \<Longrightarrow> x \<in> set (xss ! j) \<Longrightarrow> i = j"
proof (induction xss arbitrary: i j)
  case Nil
  then show ?case by simp
next
  case (Cons ys xss)
  show ?case
  proof (cases i)
    case 0
    show ?thesis
    proof (cases j)
      case 0
      with \<open>i = 0\<close> show ?thesis by simp
    next
      case (Suc j')
      with Cons.prems 0 have "x \<in> set ys" "x \<in> set (xss ! j')" "xss ! j' \<in> set xss" by simp_all
      then have "x \<in> set ys \<inter> \<Union> (set ` set xss)" by blast
      with Cons.prems(1) show ?thesis by auto
    qed
  next
    case (Suc i')
    show ?thesis
    proof (cases j)
      case 0
      with Cons.prems Suc have "x \<in> set ys" "x \<in> set (xss ! i')" "xss ! i' \<in> set xss" by simp_all
      then have "x \<in> set ys \<inter> \<Union> (set ` set xss)" by blast
      with Cons.prems(1) show ?thesis by auto
    next
      case (Suc j')
      with Cons.prems \<open>i = Suc i'\<close> have "i' = j'"
        by (intro Cons.IH) simp_all
      with Suc \<open>i = Suc i'\<close> show ?thesis by simp
    qed
  qed
qed

subsection \<open>The distance test on finite and on degenerate coordinates\<close>

lemma Math_sqrt_lt_FinD: "js_lt (Math_sqrt v) (Fin t) \<Longrightarrow> \<exists>s. v = Fin s"
  by (cases v) simp_all

lemma js_add_FinD: "js_add a b = Fin s \<Longrightarrow> \<exists>p q. a = Fin p \<and> b = Fin q"
  by (cases a; cases b) simp_all

lemma Math_pow2_FinD: "Math_pow v 2 = Fin p \<Longrightarrow> \<exists>d. v = Fin d"
  by (cases v) (simp_all add: Math_pow_def)

lemma js_sub_FinD: "js_sub a b = Fin d \<Longrightarrow> \<exists>p q. a = Fin p \<and> b = Fin q"
  by (cases a; cases b) simp_all

lemma near_finite:
  assumes "js_lt (dist_m a b) (Fin t)"
  shows "\<exists>ax ay bx by. m_x a = Fin ax \<and> m_y a = Fin ay \<and> m_x b = Fin bx \<and> m_y b = Fin by"
proof -
  from assms obtain s where
    "js_add (Math_pow (js_sub (m_x a) (m_x b)) 2) (Math_pow (js_sub (m_y a) (m_y b)) 2) = Fin s"
    unfolding dist_m_def by (blast dest: Math_sqrt_lt_FinD)
  then obtain p q where pq:
    "Math_pow (js_sub (m_x a) (m_x b)) 2 = Fin p" "Math_pow (js_sub (m_y a) (m_y b)) 2 = Fin q"
    by (blast dest: js_add_FinD)
  from pq(1) obtain dx where dx: "js_sub (m_x a) (m_x b) = Fin dx"
    by (blast dest: Math_pow2_FinD)
  from pq(2) obtain dy where dy: "js_sub (m_y a) (m_y b) = Fin dy"
    by (blast dest: Math_pow2_FinD)
  from dx obtain ax bx where x: "m_x a = Fin ax" "m_x b = Fin bx"
    by (blast dest: js_sub_FinD)
  from dy obtain ay "by" where y: "m_y a = Fin ay" "m_y b = Fin by"
    by (blast dest: js_sub_FinD)
  from x y show ?thesis by blast
qed

text \<open>
  A pair that passes the computed test against 12 is at Euclidean distance below
  \<open>12 + 1 / 10 ^ 9\<close>: every intermediate value is below \<open>2 ^ 10\<close>, where a rounding
  moves a value by at most \<open>1 / 2 ^ 44\<close>.
\<close>

lemma fl_lt_D:
  assumes "js_lt (fl x) (Fin t)" and "0 \<le> x"
  obtains r where "fl x = Fin r" and "r < t" and "0 \<le> r"
proof (cases "fl x")
  case NaN
  then show ?thesis by (simp add: fl_not_NaN)
next
  case NInf
  with assms(2) fl_NInf_D [of x] show ?thesis by simp
next
  case (Fin r)
  with assms(1) have "r < t" by simp
  moreover from Fin assms(2) have "0 \<le> r" by (rule fl_nonneg)
  ultimately show ?thesis using Fin that by blast
next
  case PInf
  with assms(1) show ?thesis by simp
qed

lemma square_expand_bound:
  fixes x y e :: real
  assumes "\<bar>x\<bar> \<le> \<bar>y\<bar> + e" and "\<bar>y\<bar> < 13" and "0 \<le> e" and "e \<le> 1"
  shows "x\<^sup>2 \<le> y\<^sup>2 + 27 * e"
proof -
  have "x\<^sup>2 = \<bar>x\<bar>\<^sup>2" by simp
  also have "\<dots> \<le> (\<bar>y\<bar> + e)\<^sup>2" using assms(1) by (intro power_mono) simp_all
  also have "\<dots> = y\<^sup>2 + 2 * e * \<bar>y\<bar> + e * e"
    by (simp add: power2_eq_square algebra_simps)
  also have "\<dots> \<le> y\<^sup>2 + 2 * e * 13 + e * 1"
    using assms(2-4) by (intro add_mono mult_left_mono order_refl) simp_all
  finally show ?thesis by simp
qed

lemma near_euclid:
  assumes near: "js_lt (dist_m a b) (Fin 12)"
    and c: "m_x a = Fin ax" "m_y a = Fin ay" "m_x b = Fin bx" "m_y b = Fin by"
  shows "sqrt ((ax - bx)\<^sup>2 + (ay - by)\<^sup>2) < 12 + 1 / 10 ^ 9"
proof -
  define e :: real where "e = 1 / 2 ^ 44"
  have e0: "0 \<le> e" and e1: "e \<le> 1" and e2: "e \<le> 1 / 100" by (simp_all add: e_def)
  define dx where "dx = ax - bx"
  define dy where "dy = ay - by"
  from near have n: "js_lt (Math_sqrt (js_add (Math_pow (fl dx) 2) (Math_pow (fl dy) 2))) (Fin 12)"
    by (simp only: dist_m_Fin [OF c] dx_def dy_def)
  then obtain s where s: "js_add (Math_pow (fl dx) 2) (Math_pow (fl dy) 2) = Fin s"
    by (blast dest: Math_sqrt_lt_FinD)
  then obtain px py where p: "Math_pow (fl dx) 2 = Fin px" "Math_pow (fl dy) 2 = Fin py"
    by (blast dest: js_add_FinD)
  then obtain dx' dy' where d: "fl dx = Fin dx'" "fl dy = Fin dy'"
    by (blast dest: Math_pow2_FinD)
  from p d have sq: "fl (dx'\<^sup>2) = Fin px" "fl (dy'\<^sup>2) = Fin py"
    by (simp_all add: Math_pow_2_Fin)
  from s p have sum: "fl (px + py) = Fin s" by simp
  from n s have s0: "0 \<le> s" and root: "js_lt (fl (sqrt s)) (Fin 12)"
    by (simp_all split: if_splits)
  from root obtain r where r: "fl (sqrt s) = Fin r" "r < 12" "0 \<le> r"
    using s0 by (auto elim: fl_lt_D)
  from r have "\<bar>r - sqrt s\<bar> \<le> e" unfolding e_def by (intro fl_error) simp_all
  with r(2) have "sqrt s < 12 + e" by linarith
  with s0 have "(sqrt s)\<^sup>2 < (12 + e)\<^sup>2" by (intro power_strict_mono) simp_all
  with s0 have "s < (12 + e)\<^sup>2" by simp
  also have "\<dots> = 144 + 24 * e + e * e" by (simp add: power2_eq_square algebra_simps)
  also have "\<dots> \<le> 144 + 24 * e + e * 1"
    using e0 e1 by (intro add_mono mult_left_mono order_refl)
  finally have s_hi: "s < 144 + 25 * e" by simp
  with s0 e1 have "\<bar>s\<bar> < 2 ^ 10" by simp
  with sum have "\<bar>s - (px + py)\<bar> \<le> e" unfolding e_def by (rule fl_error)
  then have sum_hi: "px + py \<le> s + e" by linarith
  from sq have p0: "0 \<le> px" "0 \<le> py" by (auto intro: fl_nonneg)
  from p0 sum_hi s_hi e1 have "px < 1024" "py < 1024" by linarith+
  with p0 have pb: "\<bar>px\<bar> < 2 ^ 10" "\<bar>py\<bar> < 2 ^ 10" by simp_all
  from sq(1) pb(1) have "\<bar>px - dx'\<^sup>2\<bar> \<le> e" unfolding e_def by (rule fl_error)
  moreover from sq(2) pb(2) have "\<bar>py - dy'\<^sup>2\<bar> \<le> e" unfolding e_def by (rule fl_error)
  ultimately have sq_hi: "dx'\<^sup>2 \<le> px + e" "dy'\<^sup>2 \<le> py + e" by linarith+
  from sq_hi p0 sum_hi s_hi e2 have "dx'\<^sup>2 < 169" "dy'\<^sup>2 < 169" by linarith+
  then have "\<bar>dx'\<bar>\<^sup>2 < 13\<^sup>2" "\<bar>dy'\<bar>\<^sup>2 < 13\<^sup>2" by simp_all
  then have small: "\<bar>dx'\<bar> < 13" "\<bar>dy'\<bar> < 13"
    by (auto intro: power2_less_imp_less)
  then have db: "\<bar>dx'\<bar> < 2 ^ 10" "\<bar>dy'\<bar> < 2 ^ 10" by simp_all
  from d(1) db(1) have "\<bar>dx' - dx\<bar> \<le> e" unfolding e_def by (rule fl_error)
  then have "\<bar>dx\<bar> \<le> \<bar>dx'\<bar> + e" by linarith
  then have x_hi: "dx\<^sup>2 \<le> dx'\<^sup>2 + 27 * e" using small(1) e0 e1 by (rule square_expand_bound)
  from d(2) db(2) have "\<bar>dy' - dy\<bar> \<le> e" unfolding e_def by (rule fl_error)
  then have "\<bar>dy\<bar> \<le> \<bar>dy'\<bar> + e" by linarith
  then have y_hi: "dy\<^sup>2 \<le> dy'\<^sup>2 + 27 * e" using small(2) e0 e1 by (rule square_expand_bound)
  from x_hi y_hi sq_hi sum_hi s_hi have "dx\<^sup>2 + dy\<^sup>2 < 144 + 82 * e" by linarith
  also have "\<dots> < (12 + 1 / 10 ^ 9)\<^sup>2" by (simp add: e_def power2_eq_square)
  finally have "sqrt (dx\<^sup>2 + dy\<^sup>2) < 12 + 1 / 10 ^ 9"
    by (intro real_less_lsqrt) simp_all
  then show ?thesis by (simp only: dx_def dy_def)
qed

lemma js_sub_NaN_right: "js_sub v NaN = NaN"
  by (cases v) simp_all

lemma js_add_NaN_right: "js_add v NaN = NaN"
  by (cases v) simp_all

lemma Math_pow2_NaN: "Math_pow NaN 2 = NaN"
  by (simp add: Math_pow_def)

lemma dist_m_NaN:
  "m_x a = NaN \<or> m_y a = NaN \<or> m_x b = NaN \<or> m_y b = NaN \<Longrightarrow> dist_m a b = NaN"
  by (auto simp: dist_m_def js_sub_NaN_right js_add_NaN_right Math_pow2_NaN)

lemma NaN_never_near:
  "m_x a = NaN \<or> m_y a = NaN \<or> m_x b = NaN \<or> m_y b = NaN \<Longrightarrow> \<not> js_lt (dist_m a b) t"
  by (simp only: dist_m_NaN js_lt.simps not_False_eq_True)

lemma mkNaN_never_near:
  "js_lt (dist_m a (mkNaN i)) t = False" "js_lt (dist_m (mkNaN i) a) t = False"
  using NaN_never_near [of a "mkNaN i" t] NaN_never_near [of "mkNaN i" a t]
  by (simp_all add: mkNaN_def)

lemma far_marker_not_added:
  assumes "g \<in> set (cluster CLUSTER_THRESHOLD ms)"
    and "\<not> js_lt (dist_m (hd g) m) (Fin 12)"
  shows "m \<notin> set (tl g)"
proof
  assume "m \<in> set (tl g)"
  with assms(1) have "js_lt (dist_m (hd g) m) (Fin 12)"
    unfolding cluster_outer_groups CLUSTER_THRESHOLD_def by (rule outer_groups_near)
  with assms(2) show False by simp
qed

subsection \<open>Markers that pass no distance test\<close>

lemma outer_groups_isolated_group:
  assumes "\<And>m'. \<not> js_lt (dist_m m m') t" and "\<And>m'. \<not> js_lt (dist_m m' m) t"
  shows "g \<in> set (outer_groups t ms u xs) \<Longrightarrow> m \<in> set g \<Longrightarrow> g = [m]"
proof (induction xs arbitrary: u)
  case Nil
  then show ?case by simp
next
  case (Cons m1 xs)
  show ?case
  proof (cases "m_id m1 \<in> u")
    case True
    with Cons show ?thesis by simp
  next
    case False
    let ?p = "inner_picks t m1 (insert (m_id m1) u) ms"
    from Cons.prems(1) False consider
      (here) "g = m1 # ?p" |
      (later) "g \<in> set (outer_groups t ms (insert (m_id m1) u \<union> m_id ` set ?p) xs)"
      by auto
    then show ?thesis
    proof cases
      case here
      have "m \<notin> set ?p" using inner_picks_near assms(2) by blast
      with here Cons.prems(2) have "m = m1" by simp
      then have "?p = []" using assms(1) by (simp add: inner_picks_Nil_iff)
      with here \<open>m = m1\<close> show ?thesis by simp
    next
      case later
      then show ?thesis using Cons.prems(2) by (rule Cons.IH)
    qed
  qed
qed

lemma outer_groups_isolated_member:
  assumes "\<And>m'. \<not> js_lt (dist_m m m') t" and "\<And>m'. \<not> js_lt (dist_m m' m) t"
    and "\<And>m'. m' \<in> set ms \<Longrightarrow> m_id m' = m_id m \<Longrightarrow> m' = m"
  shows "m \<in> set xs \<Longrightarrow> set xs \<subseteq> set ms \<Longrightarrow> m_id m \<notin> u \<Longrightarrow> [m] \<in> set (outer_groups t ms u xs)"
proof (induction xs arbitrary: u)
  case Nil
  then show ?case by simp
next
  case (Cons m1 xs)
  let ?p = "inner_picks t m1 (insert (m_id m1) u) ms"
  show ?case
  proof (cases "m1 = m")
    case True
    have "inner_picks t m (insert (m_id m) u) ms = []"
      using assms(1) by (simp add: inner_picks_Nil_iff)
    with True Cons.prems(3) show ?thesis by simp
  next
    case False
    with Cons.prems have in_xs: "m \<in> set xs" and sub: "set xs \<subseteq> set ms" and m1: "m1 \<in> set ms"
      by auto
    show ?thesis
    proof (cases "m_id m1 \<in> u")
      case True
      with Cons.IH [OF in_xs sub Cons.prems(3)] show ?thesis by simp
    next
      case used: False
      from False m1 assms(3) have ne: "m_id m1 \<noteq> m_id m" by blast
      have "m_id m \<notin> m_id ` set ?p"
      proof
        assume "m_id m \<in> m_id ` set ?p"
        then obtain p where p: "p \<in> set ?p" "m_id p = m_id m" by auto
        from p(1) inner_picks_subset have "p \<in> set ms" by blast
        with p(2) assms(3) have "p = m" by blast
        with p(1) inner_picks_near assms(2) show False by blast
      qed
      with ne Cons.prems(3) have "m_id m \<notin> insert (m_id m1) u \<union> m_id ` set ?p" by simp
      from Cons.IH [OF in_xs sub this] used show ?thesis by simp
    qed
  qed
qed

lemma count_list_one_unique:
  "count_list (map f xs) (f m) = 1 \<Longrightarrow> m \<in> set xs \<Longrightarrow> m' \<in> set xs \<Longrightarrow> f m' = f m \<Longrightarrow> m' = m"
proof (induction xs)
  case Nil
  then show ?case by simp
next
  case (Cons x xs)
  show ?case
  proof (cases "f x = f m")
    case True
    with Cons.prems(1) have "count_list (map f xs) (f m) = 0" by simp
    then have "f m \<notin> set (map f xs)" by (simp add: count_list_0_iff)
    then have "\<And>y. y \<in> set xs \<Longrightarrow> f y \<noteq> f m" by (metis imageI set_map)
    with Cons.prems show ?thesis by auto
  next
    case False
    with Cons show ?thesis by auto
  qed
qed

subsection \<open>Order of the groups and of their members\<close>

lemma input_pos_Cons: "input_pos (y # ys) x = (if y = x then 0 else Suc (input_pos ys x))"
  by (simp add: input_pos_def)

lemma subseq_sorted_input_pos:
  "distinct ys \<Longrightarrow> subseq xs ys \<Longrightarrow> sorted_wrt (\<lambda>a b. input_pos ys a < input_pos ys b) xs"
proof (induction ys arbitrary: xs)
  case Nil
  then have "xs = []" by simp
  then show ?case by simp
next
  case (Cons y ys)
  have shift: "sorted_wrt (\<lambda>a b. input_pos (y # ys) a < input_pos (y # ys) b) zs"
    if "subseq zs ys" for zs
  proof -
    from that have in_ys: "set zs \<subseteq> set ys" by (auto elim: list_emb_set)
    with Cons.prems(1) have "\<And>z. z \<in> set zs \<Longrightarrow> y \<noteq> z" by auto
    moreover from that Cons have "sorted_wrt (\<lambda>a b. input_pos ys a < input_pos ys b) zs" by simp
    ultimately show ?thesis
      by (auto simp: input_pos_Cons elim!: sorted_wrt_mono_rel [rotated])
  qed
  show ?case
  proof (cases xs)
    case Nil
    then show ?thesis by simp
  next
    case (Cons x xs')
    show ?thesis
    proof (cases "x = y")
      case True
      with Cons \<open>subseq xs (y # ys)\<close> have sub: "subseq xs' ys" by simp
      then have "set xs' \<subseteq> set ys" by (auto elim: list_emb_set)
      with \<open>distinct (y # ys)\<close> have "\<And>z. z \<in> set xs' \<Longrightarrow> y \<noteq> z" by auto
      with shift [OF sub] Cons True show ?thesis by (simp add: input_pos_Cons)
    next
      case False
      with Cons \<open>subseq xs (y # ys)\<close> have "subseq xs ys" by simp
      then show ?thesis by (rule shift)
    qed
  qed
qed

lemma outer_groups_order:
  "ms = pre @ xs \<Longrightarrow> m_id ` set pre \<subseteq> u \<Longrightarrow>
     (\<forall>g\<in>set (outer_groups t ms u xs). subseq g xs) \<and> subseq (map hd (outer_groups t ms u xs)) xs"
proof (induction xs arbitrary: pre u)
  case Nil
  then show ?case by simp
next
  case (Cons m1 xs)
  show ?case
  proof (cases "m_id m1 \<in> u")
    case True
    from Cons.prems have "ms = (pre @ [m1]) @ xs" "m_id ` set (pre @ [m1]) \<subseteq> u"
      using True by simp_all
    from Cons.IH [OF this] True show ?thesis
      by auto
  next
    case False
    define p where "p = inner_picks t m1 (insert (m_id m1) u) ms"
    define u' where "u' = insert (m_id m1) u \<union> m_id ` set p"
    have "p = inner_picks t m1 (insert (m_id m1) u) ((pre @ [m1]) @ xs)"
      using Cons.prems(1) by (simp add: p_def)
    also have "\<dots> = inner_picks t m1 (insert (m_id m1) u) xs"
      using Cons.prems(2) by (intro inner_picks_skip) auto
    finally have p: "subseq p xs" by (simp add: inner_picks_subseq)
    from Cons.prems have "ms = (pre @ [m1]) @ xs" "m_id ` set (pre @ [m1]) \<subseteq> u'"
      by (auto simp: u'_def)
    from Cons.IH [OF this]
    have rest: "\<forall>g\<in>set (outer_groups t ms u' xs). subseq g xs"
      "subseq (map hd (outer_groups t ms u' xs)) xs" by simp_all
    have eq: "outer_groups t ms u (m1 # xs) = (m1 # p) # outer_groups t ms u' xs"
      using False by (simp add: p_def u'_def)
    from p rest show ?thesis unfolding eq by auto
  qed
qed

lemma cluster_subseq:
  "(\<forall>g\<in>set (cluster t ms). subseq g ms) \<and> subseq (map hd (cluster t ms)) ms"
  using outer_groups_order [of ms "[]" ms "{}" t] by (simp add: cluster_outer_groups)

subsection \<open>When a group is a singleton\<close>

lemma outer_groups_singleton_iff:
  "k < length (outer_groups t ms u xs) \<Longrightarrow>
     (length (outer_groups t ms u xs ! k) = 1)
       = (\<forall>m\<in>set ms.
            m_id m \<notin> u \<union> m_id ` set (concat (take k (outer_groups t ms u xs)))
            \<and> m_id m \<noteq> m_id (hd (outer_groups t ms u xs ! k))
            \<longrightarrow> \<not> js_lt (dist_m (hd (outer_groups t ms u xs ! k)) m) t)"
proof (induction xs arbitrary: u k)
  case Nil
  then show ?case by simp
next
  case (Cons m1 xs)
  show ?case
  proof (cases "m_id m1 \<in> u")
    case True
    with Cons show ?thesis by simp
  next
    case False
    define p where "p = inner_picks t m1 (insert (m_id m1) u) ms"
    define u' where "u' = insert (m_id m1) u \<union> m_id ` set p"
    have eq: "outer_groups t ms u (m1 # xs) = (m1 # p) # outer_groups t ms u' xs"
      using False by (simp add: p_def u'_def)
    show ?thesis
    proof (cases k)
      case 0
      have "(length (m1 # p) = 1) = (p = [])" by simp
      also have "\<dots> = (\<forall>m\<in>set ms. m_id m \<notin> insert (m_id m1) u \<longrightarrow> \<not> js_lt (dist_m m1 m) t)"
        unfolding p_def by (rule inner_picks_Nil_iff)
      finally show ?thesis unfolding eq 0 by auto
    next
      case (Suc k')
      with Cons.prems have k': "k' < length (outer_groups t ms u' xs)"
        unfolding eq by simp
      have un: "u \<union> m_id ` set (concat (take (Suc k') ((m1 # p) # outer_groups t ms u' xs)))
          = u' \<union> m_id ` set (concat (take k' (outer_groups t ms u' xs)))"
        by (auto simp: u'_def)
      show ?thesis
        unfolding eq Suc un nth_Cons_Suc by (rule Cons.IH [OF k'])
    qed
  qed
qed

subsection \<open>The pass on the store: what it writes and what it computes\<close>

lemma inner_body_step:
  assumes "m1 < length (objs h)" and "m2 < length (objs h)" and "g < length (arrs h)"
  shows "\<exists>h' used'. inner_body t m1 g m2 (h, used) = Some (h', used')
           \<and> objs h' = objs h \<and> length (arrs h') = length (arrs h)
           \<and> (\<forall>a. a \<noteq> g \<longrightarrow> arrs h' ! a = arrs h ! a)
           \<and> (markers_of h' g, used')
               = inner_step t (objs h ! m1) (objs h ! m2) (markers_of h g, used)"
  using assms
  by (simp add: inner_body_def inner_step_def get_obj_def push_def markers_of_def)

lemma inner_loop:
  assumes "a < length (arrs h)" and "g < length (arrs h)" and "g \<noteq> a"
    and "m1 < length (objs h)" and "list_all (\<lambda>r. r < length (objs h)) (arrs h ! a)"
    and "k + n \<le> length (arrs h ! a)"
  shows "\<exists>h' used'. forEach_loop a (inner_body t m1 g) k n (h, used) = Some (h', used')
           \<and> objs h' = objs h \<and> length (arrs h') = length (arrs h)
           \<and> (\<forall>b. b \<noteq> g \<longrightarrow> arrs h' ! b = arrs h ! b)
           \<and> (markers_of h' g, used')
               = fold (inner_step t (objs h ! m1))
                   (map (\<lambda>r. objs h ! r) (take n (drop k (arrs h ! a)))) (markers_of h g, used)"
  using assms
proof (induction n arbitrary: k h used)
  case 0
  then show ?case by simp
next
  case (Suc n)
  define rs where "rs = arrs h ! a"
  from Suc.prems(6) have k: "k < length rs" by (simp add: rs_def)
  with Suc.prems(5) have m2: "rs ! k < length (objs h)"
    by (simp add: rs_def list_all_length)
  from inner_body_step [OF Suc.prems(4) m2 Suc.prems(2), of t used]
  obtain h1 u1 where b: "inner_body t m1 g (rs ! k) (h, used) = Some (h1, u1)"
    and o1: "objs h1 = objs h" and l1: "length (arrs h1) = length (arrs h)"
    and f1: "\<forall>b. b \<noteq> g \<longrightarrow> arrs h1 ! b = arrs h ! b"
    and s1: "(markers_of h1 g, u1)
               = inner_step t (objs h ! m1) (objs h ! (rs ! k)) (markers_of h g, used)"
    by blast
  from f1 Suc.prems(3) have a1: "arrs h1 ! a = rs" by (simp add: rs_def)
  have unroll: "forEach_loop a (inner_body t m1 g) k (Suc n) (h, used)
      = forEach_loop a (inner_body t m1 g) (Suc k) n (h1, u1)"
    using Suc.prems(1) k b by (simp add: get_arr_def rs_def)
  have "\<exists>h' used'. forEach_loop a (inner_body t m1 g) (Suc k) n (h1, u1) = Some (h', used')
           \<and> objs h' = objs h1 \<and> length (arrs h') = length (arrs h1)
           \<and> (\<forall>b. b \<noteq> g \<longrightarrow> arrs h' ! b = arrs h1 ! b)
           \<and> (markers_of h' g, used')
               = fold (inner_step t (objs h1 ! m1))
                   (map (\<lambda>r. objs h1 ! r) (take n (drop (Suc k) (arrs h1 ! a))))
                   (markers_of h1 g, u1)"
    using Suc.prems by (intro Suc.IH) (simp_all add: o1 l1 a1 rs_def)
  then obtain h' used' where
    r: "forEach_loop a (inner_body t m1 g) (Suc k) n (h1, u1) = Some (h', used')"
    and o': "objs h' = objs h1" and l': "length (arrs h') = length (arrs h1)"
    and f': "\<forall>b. b \<noteq> g \<longrightarrow> arrs h' ! b = arrs h1 ! b"
    and s': "(markers_of h' g, used')
               = fold (inner_step t (objs h1 ! m1))
                   (map (\<lambda>r. objs h1 ! r) (take n (drop (Suc k) (arrs h1 ! a))))
                   (markers_of h1 g, u1)"
    by blast
  have split: "take (Suc n) (drop k rs) = rs ! k # take n (drop (Suc k) rs)"
    using k by (simp add: Cons_nth_drop_Suc [symmetric])
  have "(markers_of h' g, used')
      = fold (inner_step t (objs h ! m1))
          (map (\<lambda>r. objs h ! r) (take (Suc n) (drop k rs))) (markers_of h g, used)"
    unfolding split using s' by (simp add: o1 a1 s1)
  with unroll r o' o1 l' l1 f' f1 show ?case
    unfolding rs_def by simp
qed

lemma inner_forEach:
  assumes "a < length (arrs h)" and "g < length (arrs h)" and "g \<noteq> a"
    and "m1 < length (objs h)" and "list_all (\<lambda>r. r < length (objs h)) (arrs h ! a)"
  shows "\<exists>h' used'. forEach a (inner_body t m1 g) (h, used) = Some (h', used')
           \<and> objs h' = objs h \<and> length (arrs h') = length (arrs h)
           \<and> (\<forall>b. b \<noteq> g \<longrightarrow> arrs h' ! b = arrs h ! b)
           \<and> (markers_of h' g, used')
               = fold (inner_step t (objs h ! m1)) (markers_of h a) (markers_of h g, used)"
  using inner_loop [OF assms, of 0 "length (arrs h ! a)" t used] assms(1)
  by (simp add: forEach_def get_arr_def markers_of_def)

lemma outer_body_step:
  assumes inv: "outer_inv a res h" and m1: "m1 < length (objs h)"
  shows "\<exists>h' used'. outer_body t a res m1 (h, used) = Some (h', used')
           \<and> objs h' = objs h \<and> length (arrs h) \<le> length (arrs h')
           \<and> (\<forall>b<length (arrs h). b \<noteq> res \<longrightarrow> arrs h' ! b = arrs h ! b)
           \<and> outer_inv a res h'
           \<and> (groups_of h' res, used')
               = outer_step t (markers_of h a) (objs h ! m1) (groups_of h res, used)"
proof (cases "m_id (objs h ! m1) \<in> used")
  case True
  with inv m1 show ?thesis
    by (simp add: outer_body_def outer_step_def get_obj_def)
next
  case False
  define g where "g = length (arrs h)"
  define h1 where "h1 = h\<lparr>arrs := arrs h @ [[m1]]\<rparr>"
  from inv have a_res: "a < res" and res: "res < length (arrs h)"
    and refs: "list_all (\<lambda>r. r < length (objs h)) (arrs h ! a)"
    and grps: "list_all (\<lambda>g. res < g \<and> g < length (arrs h)) (arrs h ! res)"
    by (simp_all add: outer_inv_def)
  have h1_a: "arrs h1 ! a = arrs h ! a" and h1_res: "arrs h1 ! res = arrs h ! res"
    and h1_g: "arrs h1 ! g = [m1]" and h1_len: "length (arrs h1) = Suc g"
    and h1_objs: "objs h1 = objs h"
    using a_res res by (simp_all add: h1_def g_def nth_append)
  have "\<exists>h' used'. forEach a (inner_body t m1 g) (h1, insert (m_id (objs h ! m1)) used)
            = Some (h', used')
           \<and> objs h' = objs h1 \<and> length (arrs h') = length (arrs h1)
           \<and> (\<forall>b. b \<noteq> g \<longrightarrow> arrs h' ! b = arrs h1 ! b)
           \<and> (markers_of h' g, used')
               = fold (inner_step t (objs h1 ! m1)) (markers_of h1 a)
                   (markers_of h1 g, insert (m_id (objs h ! m1)) used)"
    using a_res res m1 refs
    by (intro inner_forEach) (simp_all add: h1_len h1_objs h1_a g_def)
  then obtain h2 used2 where
    run: "forEach a (inner_body t m1 g) (h1, insert (m_id (objs h ! m1)) used) = Some (h2, used2)"
    and o2: "objs h2 = objs h" and l2: "length (arrs h2) = Suc g"
    and f2: "\<forall>b. b \<noteq> g \<longrightarrow> arrs h2 ! b = arrs h1 ! b"
    and s2: "(markers_of h2 g, used2)
               = fold (inner_step t (objs h ! m1)) (markers_of h a)
                   ([objs h ! m1], insert (m_id (objs h ! m1)) used)"
    by (auto simp: h1_len h1_objs markers_of_def h1_a h1_g)
  define h3 where "h3 = h2\<lparr>arrs := (arrs h2)[res := arrs h2 ! res @ [g]]\<rparr>"
  have res_g: "res \<noteq> g" using res by (simp add: g_def)
  have h2_res: "arrs h2 ! res = arrs h ! res" using f2 res_g h1_res by simp
  have body: "outer_body t a res m1 (h, used) = Some (h3, used2)"
    using False m1 run res l2
    by (simp add: outer_body_def get_obj_def new_arr_def h1_def [symmetric] g_def [symmetric]
          push_def h3_def)
  have o3: "objs h3 = objs h" by (simp add: h3_def o2)
  have l3: "length (arrs h3) = Suc g" by (simp add: h3_def l2)
  have h3_res: "arrs h3 ! res = arrs h ! res @ [g]"
    using res by (simp add: h3_def l2 g_def h2_res)
  have h3_other: "arrs h3 ! b = arrs h ! b" if "b < length (arrs h)" "b \<noteq> res" for b
  proof -
    from that have "b \<noteq> g" by (simp add: g_def)
    with that f2 show ?thesis by (simp add: h3_def h1_def nth_append)
  qed
  have h3_g: "arrs h3 ! g = arrs h2 ! g" using res_g by (simp add: h3_def)
  have old: "markers_of h3 g' = markers_of h g'" if "g' \<in> set (arrs h ! res)" for g'
  proof -
    from grps that have "res < g'" "g' < length (arrs h)" by (simp_all add: list_all_iff)
    then show ?thesis by (simp add: markers_of_def o3 h3_other)
  qed
  have new: "markers_of h3 g = markers_of h2 g"
    by (simp add: markers_of_def o3 o2 h3_g)
  have groups: "groups_of h3 res = groups_of h res @ [markers_of h2 g]"
    by (simp add: groups_of_def h3_res old new)
  have step: "outer_step t (markers_of h a) (objs h ! m1) (groups_of h res, used)
      = (groups_of h res @ [markers_of h2 g], used2)"
    using False by (simp add: outer_step_def s2 [symmetric])
  have inv3: "outer_inv a res h3"
    unfolding outer_inv_def
  proof (intro conjI)
    show "a < res" by (rule a_res)
    show "res < length (arrs h3)" using res by (simp add: l3 g_def)
    from a_res res have "arrs h3 ! a = arrs h ! a" by (intro h3_other) simp_all
    with refs show "list_all (\<lambda>r. r < length (objs h3)) (arrs h3 ! a)" by (simp add: o3)
    from grps res show "list_all (\<lambda>g. res < g \<and> g < length (arrs h3)) (arrs h3 ! res)"
      by (auto simp: h3_res l3 g_def list_all_iff)
  qed
  from body o3 l3 h3_other inv3 groups step show ?thesis
    by (simp add: g_def)
qed

lemma outer_loop:
  assumes "outer_inv a res h" and "k + n \<le> length (arrs h ! a)"
  shows "\<exists>h' used'. forEach_loop a (outer_body t a res) k n (h, used) = Some (h', used')
           \<and> objs h' = objs h \<and> length (arrs h) \<le> length (arrs h')
           \<and> (\<forall>b<length (arrs h). b \<noteq> res \<longrightarrow> arrs h' ! b = arrs h ! b)
           \<and> outer_inv a res h'
           \<and> (groups_of h' res, used')
               = fold (outer_step t (markers_of h a))
                   (map (\<lambda>r. objs h ! r) (take n (drop k (arrs h ! a)))) (groups_of h res, used)"
  using assms
proof (induction n arbitrary: k h used)
  case 0
  then show ?case by simp
next
  case (Suc n)
  define rs where "rs = arrs h ! a"
  from Suc.prems(1) have a_res: "a < res" and res: "res < length (arrs h)"
    and refs: "list_all (\<lambda>r. r < length (objs h)) rs"
    by (simp_all add: outer_inv_def rs_def)
  from Suc.prems(2) have k: "k < length rs" by (simp add: rs_def)
  with refs have m1: "rs ! k < length (objs h)" by (simp add: list_all_length)
  from outer_body_step [OF Suc.prems(1) m1, of t used]
  obtain h1 u1 where b: "outer_body t a res (rs ! k) (h, used) = Some (h1, u1)"
    and o1: "objs h1 = objs h" and l1: "length (arrs h) \<le> length (arrs h1)"
    and f1: "\<forall>b<length (arrs h). b \<noteq> res \<longrightarrow> arrs h1 ! b = arrs h ! b"
    and i1: "outer_inv a res h1"
    and s1: "(groups_of h1 res, u1)
               = outer_step t (markers_of h a) (objs h ! (rs ! k)) (groups_of h res, used)"
    by blast
  from f1 a_res res have a1: "arrs h1 ! a = rs" by (simp add: rs_def)
  then have ms1: "markers_of h1 a = markers_of h a"
    by (simp add: markers_of_def o1 rs_def)
  have unroll: "forEach_loop a (outer_body t a res) k (Suc n) (h, used)
      = forEach_loop a (outer_body t a res) (Suc k) n (h1, u1)"
    using a_res res k b by (simp add: get_arr_def rs_def)
  have "\<exists>h' used'. forEach_loop a (outer_body t a res) (Suc k) n (h1, u1) = Some (h', used')
           \<and> objs h' = objs h1 \<and> length (arrs h1) \<le> length (arrs h')
           \<and> (\<forall>b<length (arrs h1). b \<noteq> res \<longrightarrow> arrs h' ! b = arrs h1 ! b)
           \<and> outer_inv a res h'
           \<and> (groups_of h' res, used')
               = fold (outer_step t (markers_of h1 a))
                   (map (\<lambda>r. objs h1 ! r) (take n (drop (Suc k) (arrs h1 ! a))))
                   (groups_of h1 res, u1)"
    using i1 Suc.prems(2) by (intro Suc.IH) (simp_all add: a1 rs_def)
  then obtain h' used' where
    r: "forEach_loop a (outer_body t a res) (Suc k) n (h1, u1) = Some (h', used')"
    and o': "objs h' = objs h1" and l': "length (arrs h1) \<le> length (arrs h')"
    and f': "\<forall>b<length (arrs h1). b \<noteq> res \<longrightarrow> arrs h' ! b = arrs h1 ! b"
    and i': "outer_inv a res h'"
    and s': "(groups_of h' res, used')
               = fold (outer_step t (markers_of h a))
                   (map (\<lambda>r. objs h ! r) (take n (drop (Suc k) rs))) (groups_of h1 res, u1)"
    by (auto simp: ms1 o1 a1)
  have split: "take (Suc n) (drop k rs) = rs ! k # take n (drop (Suc k) rs)"
    using k by (simp add: Cons_nth_drop_Suc [symmetric])
  have sim: "(groups_of h' res, used')
      = fold (outer_step t (markers_of h a))
          (map (\<lambda>r. objs h ! r) (take (Suc n) (drop k rs))) (groups_of h res, used)"
    unfolding split using s' by (simp add: s1)
  have frame: "\<forall>b<length (arrs h). b \<noteq> res \<longrightarrow> arrs h' ! b = arrs h ! b"
    using f' f1 l1 by auto
  from unroll r o' o1 l' l1 frame i' sim show ?case
    unfolding rs_def by simp
qed

lemma outer_forEach:
  assumes "outer_inv a res h"
  shows "\<exists>h' used'. forEach a (outer_body t a res) (h, used) = Some (h', used')
           \<and> objs h' = objs h \<and> length (arrs h) \<le> length (arrs h')
           \<and> (\<forall>b<length (arrs h). b \<noteq> res \<longrightarrow> arrs h' ! b = arrs h ! b)
           \<and> outer_inv a res h'
           \<and> (groups_of h' res, used')
               = fold (outer_step t (markers_of h a)) (markers_of h a) (groups_of h res, used)"
proof -
  from assms have "a < length (arrs h)" by (simp add: outer_inv_def)
  with outer_loop [OF assms, of 0 "length (arrs h ! a)" t used] show ?thesis
    by (simp add: forEach_def get_arr_def markers_of_def)
qed

lemma cluster_heap_correct:
  assumes "wf_input h a"
  shows "\<exists>h' res. cluster_heap t a h = Some (h', res)
     \<and> objs h' = objs h
     \<and> take (length (arrs h)) (arrs h') = arrs h
     \<and> res = length (arrs h) \<and> res < length (arrs h')
     \<and> list_all (\<lambda>g. res < g \<and> g < length (arrs h')) (arrs h' ! res)
     \<and> groups_of h' res = cluster t (markers_of h a)"
proof -
  define res where "res = length (arrs h)"
  define h0 where "h0 = h\<lparr>arrs := arrs h @ [[]]\<rparr>"
  from assms have a: "a < length (arrs h)"
    and refs: "list_all (\<lambda>r. r < length (objs h)) (arrs h ! a)"
    by (simp_all add: wf_input_def)
  have inv0: "outer_inv a res h0"
    using a refs by (simp add: outer_inv_def h0_def res_def nth_append)
  have ms0: "markers_of h0 a = markers_of h a"
    using a by (simp add: markers_of_def h0_def nth_append)
  have g0: "groups_of h0 res = []"
    by (simp add: groups_of_def h0_def res_def)
  have o0: "objs h0 = objs h" and l0: "length (arrs h0) = Suc (length (arrs h))"
    by (simp_all add: h0_def)
  from outer_forEach [OF inv0, of t "{}"]
  obtain h' used' where
    run: "forEach a (outer_body t a res) (h0, {}) = Some (h', used')"
    and o': "objs h' = objs h" and l': "Suc (length (arrs h)) \<le> length (arrs h')"
    and f': "\<forall>b<Suc (length (arrs h)). b \<noteq> res \<longrightarrow> arrs h' ! b = arrs h0 ! b"
    and i': "outer_inv a res h'"
    and s': "(groups_of h' res, used')
               = fold (outer_step t (markers_of h a)) (markers_of h a) ([], {})"
    by (auto simp: ms0 g0 o0 l0)
  have call: "cluster_heap t a h = Some (h', res)"
    using run by (simp add: cluster_heap_def new_arr_def h0_def [symmetric] res_def [symmetric])
  have old: "take (length (arrs h)) (arrs h') = arrs h"
  proof (rule nth_equalityI)
    show "length (take (length (arrs h)) (arrs h')) = length (arrs h)"
      using l' by simp
    fix b assume "b < length (take (length (arrs h)) (arrs h'))"
    then have b: "b < length (arrs h)" by simp
    with f' have "arrs h' ! b = arrs h0 ! b" by (simp add: res_def)
    with b show "take (length (arrs h)) (arrs h') ! b = arrs h ! b"
      by (simp add: h0_def nth_append)
  qed
  have groups: "groups_of h' res = cluster t (markers_of h a)"
    using s' [symmetric] by (simp add: cluster_def)
  from i' have fresh: "res < length (arrs h')"
    "list_all (\<lambda>g. res < g \<and> g < length (arrs h')) (arrs h' ! res)"
    by (simp_all add: outer_inv_def)
  from call o' old fresh groups show ?thesis
    by (simp add: res_def)
qed

lemma cluster_heap_sample:
  "cluster_heap (Fin 12) 0 sample_heap
     = Some (\<lparr> objs = [mk ''A'' 0 0, mk ''B'' 10 0, mk ''C'' 20 0],
                arrs = [[0, 1, 2], [2, 3], [0, 1], [2]] \<rparr>, 1)"
  by (simp add: cluster_heap_def sample_heap_def new_arr_def forEach_def get_arr_def get_obj_def
        outer_body_def inner_body_def push_def near_mk m_id_mk nth_append)

section \<open>Claims\<close>

subsection \<open>C1: the groups partition the input\<close>

text \<open>
  C1 (amended). When the ids of the input markers are pairwise distinct, the pass returns
  non-empty groups, the groups together hold every input marker exactly once, and every
  input marker lies in exactly one group.
\<close>

theorem C1_partition_distinct_ids:
  "distinct (map m_id ms) \<Longrightarrow>
     [] \<notin> set (cluster t ms)
     \<and> mset (concat (cluster t ms)) = mset ms
     \<and> (\<forall>m\<in>set ms. \<exists>!k. k < length (cluster t ms) \<and> m \<in> set (cluster t ms ! k))"
proof (intro conjI ballI)
  assume d: "distinct (map m_id ms)"
  show "[] \<notin> set (cluster t ms)" by (rule cluster_nonempty)
  show "mset (concat (cluster t ms)) = mset ms" using d by (rule cluster_mset)
  fix m assume "m \<in> set ms"
  then have "m \<in> set (concat (cluster t ms))" by (simp only: cluster_set_eq [OF d])
  then obtain g where "g \<in> set (cluster t ms)" "m \<in> set g" by auto
  then obtain k where k: "k < length (cluster t ms)" "m \<in> set (cluster t ms ! k)"
    by (auto simp: in_set_conv_nth)
  show "\<exists>!k. k < length (cluster t ms) \<and> m \<in> set (cluster t ms ! k)"
  proof (rule ex1I [of _ k])
    show "k < length (cluster t ms) \<and> m \<in> set (cluster t ms ! k)" using k by simp
  next
    fix j assume "j < length (cluster t ms) \<and> m \<in> set (cluster t ms ! j)"
    with k show "j = k"
      using distinct_concat_unique_index [OF cluster_distinct] by blast
  qed
qed

text \<open>C1, at the markers A(0,0), B(1,1), C(50,50) with threshold 12.\<close>

theorem C1_witness:
  "distinct (map m_id [mk ''A'' 0 0, mk ''B'' 1 1, mk ''C'' 50 50])
   \<and> cluster (Fin 12) [mk ''A'' 0 0, mk ''B'' 1 1, mk ''C'' 50 50]
       = [[mk ''A'' 0 0, mk ''B'' 1 1], [mk ''C'' 50 50]]
   \<and> mset (concat (cluster (Fin 12) [mk ''A'' 0 0, mk ''B'' 1 1, mk ''C'' 50 50]))
       = mset [mk ''A'' 0 0, mk ''B'' 1 1, mk ''C'' 50 50]"
proof -
  have d: "distinct (map m_id [mk ''A'' 0 0, mk ''B'' 1 1, mk ''C'' 50 50])"
    by (simp add: m_id_mk)
  have run: "cluster (Fin 12) [mk ''A'' 0 0, mk ''B'' 1 1, mk ''C'' 50 50]
       = [[mk ''A'' 0 0, mk ''B'' 1 1], [mk ''C'' 50 50]]"
    by (simp add: cluster_def outer_step_def inner_step_def near_mk m_id_mk)
  from C1_partition_distinct_ids [OF d, of "Fin 12"] d run show ?thesis by blast
qed

text \<open>
  C1 as stated, for every marker list, fails: of two markers with the same id the second
  is in no group when the first has become an anchor.
\<close>

theorem C1_duplicate_id_omitted:
  "cluster (Fin 12) [mk ''a'' 0 0, mk ''a'' 50 50] = [[mk ''a'' 0 0]]
   \<and> mk ''a'' 50 50 \<in> set [mk ''a'' 0 0, mk ''a'' 50 50]
   \<and> mk ''a'' 50 50 \<notin> set (concat (cluster (Fin 12) [mk ''a'' 0 0, mk ''a'' 50 50]))"
proof -
  have run: "cluster (Fin 12) [mk ''a'' 0 0, mk ''a'' 50 50] = [[mk ''a'' 0 0]]"
    by (simp add: cluster_def outer_step_def inner_step_def near_mk m_id_mk)
  show ?thesis unfolding run by (simp add: mk_def)
qed

subsection \<open>C2: when a group is a singleton\<close>

text \<open>
  C2 (amended). A group of the result is a singleton if and only if its anchor is within
  the threshold of no marker whose id was still unused when the anchor was processed,
  that is, of no marker of the input whose id is neither the id of a member of an earlier
  group nor the id of the anchor.
\<close>

theorem C2_singleton_iff_no_unused_near:
  "k < length (cluster t ms) \<Longrightarrow>
     (length (cluster t ms ! k) = 1)
       = (\<forall>m\<in>set ms.
            m_id m \<notin> m_id ` set (concat (take k (cluster t ms)))
            \<and> m_id m \<noteq> m_id (hd (cluster t ms ! k))
            \<longrightarrow> \<not> js_lt (dist_m (hd (cluster t ms ! k)) m) t)"
  using outer_groups_singleton_iff [of k t ms "{}" ms]
  by (simp only: cluster_outer_groups Un_empty_left)

text \<open>C2, at the second group of the markers A(0,0), B(10,0), C(20,0) with threshold 12.\<close>

theorem C2_witness:
  "1 < length (cluster (Fin 12) [mk ''A'' 0 0, mk ''B'' 10 0, mk ''C'' 20 0])
   \<and> length (cluster (Fin 12) [mk ''A'' 0 0, mk ''B'' 10 0, mk ''C'' 20 0] ! 1) = 1
   \<and> hd (cluster (Fin 12) [mk ''A'' 0 0, mk ''B'' 10 0, mk ''C'' 20 0] ! 1) = mk ''C'' 20 0"
proof -
  have run: "cluster (Fin 12) [mk ''A'' 0 0, mk ''B'' 10 0, mk ''C'' 20 0]
       = [[mk ''A'' 0 0, mk ''B'' 10 0], [mk ''C'' 20 0]]"
    by (simp add: cluster_def outer_step_def inner_step_def near_mk m_id_mk)
  have k: "1 < length (cluster (Fin 12) [mk ''A'' 0 0, mk ''B'' 10 0, mk ''C'' 20 0])"
    unfolding run by simp
  have anchor: "hd (cluster (Fin 12) [mk ''A'' 0 0, mk ''B'' 10 0, mk ''C'' 20 0] ! 1)
       = mk ''C'' 20 0"
    unfolding run by simp
  have none_near: "\<forall>m\<in>set [mk ''A'' 0 0, mk ''B'' 10 0, mk ''C'' 20 0].
         m_id m \<notin> m_id ` set (concat (take 1
             (cluster (Fin 12) [mk ''A'' 0 0, mk ''B'' 10 0, mk ''C'' 20 0])))
         \<and> m_id m \<noteq> m_id (hd (cluster (Fin 12) [mk ''A'' 0 0, mk ''B'' 10 0, mk ''C'' 20 0] ! 1))
         \<longrightarrow> \<not> js_lt (dist_m
               (hd (cluster (Fin 12) [mk ''A'' 0 0, mk ''B'' 10 0, mk ''C'' 20 0] ! 1)) m) (Fin 12)"
    unfolding run by (simp add: m_id_mk)
  have "length (cluster (Fin 12) [mk ''A'' 0 0, mk ''B'' 10 0, mk ''C'' 20 0] ! 1) = 1"
    using C2_singleton_iff_no_unused_near [OF k] none_near by (rule iffD2)
  with k anchor show ?thesis by simp
qed

text \<open>
  C2 as stated fails in both directions on A(0,0), B(10,0), C(20,0) with threshold 12:
  the group [C] is a singleton although C is within the threshold of B, a member of the
  earlier group [A,B]; and [A,B] is not a singleton although no group precedes it.
\<close>

theorem C2_spec_rule_fails:
  "\<not> spec_singleton_rule (Fin 12) [mk ''A'' 0 0, mk ''B'' 10 0, mk ''C'' 20 0]
   \<and> cluster (Fin 12) [mk ''A'' 0 0, mk ''B'' 10 0, mk ''C'' 20 0]
       = [[mk ''A'' 0 0, mk ''B'' 10 0], [mk ''C'' 20 0]]
   \<and> js_lt (dist_m (mk ''C'' 20 0) (mk ''B'' 10 0)) (Fin 12)"
proof (intro conjI notI)
  show run: "cluster (Fin 12) [mk ''A'' 0 0, mk ''B'' 10 0, mk ''C'' 20 0]
       = [[mk ''A'' 0 0, mk ''B'' 10 0], [mk ''C'' 20 0]]"
    by (simp add: cluster_def outer_step_def inner_step_def near_mk m_id_mk)
  show near: "js_lt (dist_m (mk ''C'' 20 0) (mk ''B'' 10 0)) (Fin 12)"
    by (simp add: near_mk)
  assume "spec_singleton_rule (Fin 12) [mk ''A'' 0 0, mk ''B'' 10 0, mk ''C'' 20 0]"
  then have "\<forall>k < length [[mk ''A'' 0 0, mk ''B'' 10 0], [mk ''C'' 20 0]].
     (length ([[mk ''A'' 0 0, mk ''B'' 10 0], [mk ''C'' 20 0]] ! k) = 1)
     = (\<forall>m' \<in> set (concat (take k [[mk ''A'' 0 0, mk ''B'' 10 0], [mk ''C'' 20 0]])).
          \<not> js_lt (dist_m (hd ([[mk ''A'' 0 0, mk ''B'' 10 0], [mk ''C'' 20 0]] ! k)) m') (Fin 12))"
    unfolding spec_singleton_rule_def run .
  from this [rule_format, of 1]
  have "\<not> js_lt (dist_m (mk ''C'' 20 0) (mk ''B'' 10 0)) (Fin 12)"
    by simp
  with near show False by simp
qed

subsection \<open>C3: grouping is relative to the anchor, not transitive\<close>

text \<open>
  C3. For the markers A(0,0), B(10,0), C(20,0) in this order and threshold 12 the pass
  returns [[A,B],[C]], and not [[A,B,C]]: B is at distance 10 from the anchor A, C is at
  distance 20 from A although at distance 10 from B.
\<close>

theorem C3_non_transitive:
  "cluster (Fin 12) [mk ''A'' 0 0, mk ''B'' 10 0, mk ''C'' 20 0]
     = [[mk ''A'' 0 0, mk ''B'' 10 0], [mk ''C'' 20 0]]
   \<and> cluster (Fin 12) [mk ''A'' 0 0, mk ''B'' 10 0, mk ''C'' 20 0]
     \<noteq> [[mk ''A'' 0 0, mk ''B'' 10 0, mk ''C'' 20 0]]
   \<and> dist_m (mk ''A'' 0 0) (mk ''B'' 10 0) = Fin 10
   \<and> dist_m (mk ''A'' 0 0) (mk ''C'' 20 0) = Fin 20
   \<and> dist_m (mk ''B'' 10 0) (mk ''C'' 20 0) = Fin 10"
proof -
  have run: "cluster (Fin 12) [mk ''A'' 0 0, mk ''B'' 10 0, mk ''C'' 20 0]
     = [[mk ''A'' 0 0, mk ''B'' 10 0], [mk ''C'' 20 0]]"
    by (simp add: cluster_def outer_step_def inner_step_def near_mk m_id_mk)
  show ?thesis
    unfolding run by (simp add: near_mk)
qed

subsection \<open>C4: membership is relative to the anchor, with a strict threshold\<close>

text \<open>
  C4 (amended). In every group of the pass run with \<open>CLUSTER_THRESHOLD\<close>, every member
  after the first passed the test \<open>dist < 12\<close> against the first member, the anchor,
  where \<open>dist\<close> is the double the pass computes, each operation rounded; both have
  finite coordinates, and their Euclidean distance is below \<open>12 + 1 / 10 ^ 9\<close>. A
  marker whose computed \<open>dist\<close> from the anchor is 12 or more, or NaN, is not among
  the members after the anchor, and neither is a marker at Euclidean distance
  \<open>12 + 1 / 10 ^ 9\<close> or more.
\<close>

theorem C4_anchor_strict_threshold:
  "g \<in> set (cluster CLUSTER_THRESHOLD ms) \<Longrightarrow>
     (\<forall>m\<in>set (tl g).
        js_lt (dist_m (hd g) m) (Fin 12)
        \<and> (\<exists>ax ay bx by.
              m_x (hd g) = Fin ax \<and> m_y (hd g) = Fin ay \<and> m_x m = Fin bx \<and> m_y m = Fin by
              \<and> sqrt ((ax - bx)\<^sup>2 + (ay - by)\<^sup>2) < 12 + 1 / 10 ^ 9))
     \<and> (\<forall>m. \<not> js_lt (dist_m (hd g) m) (Fin 12) \<longrightarrow> m \<notin> set (tl g))
     \<and> (\<forall>m ax ay bx by.
          m_x (hd g) = Fin ax \<and> m_y (hd g) = Fin ay \<and> m_x m = Fin bx \<and> m_y m = Fin by
          \<and> 12 + 1 / 10 ^ 9 \<le> sqrt ((ax - bx)\<^sup>2 + (ay - by)\<^sup>2)
          \<longrightarrow> m \<notin> set (tl g))"
proof (intro conjI ballI allI impI)
  assume g: "g \<in> set (cluster CLUSTER_THRESHOLD ms)"
  have near: "js_lt (dist_m (hd g) m) (Fin 12)" if "m \<in> set (tl g)" for m
    using g that unfolding cluster_outer_groups CLUSTER_THRESHOLD_def
    by (rule outer_groups_near)
  {
    fix m assume m: "m \<in> set (tl g)"
    then show "js_lt (dist_m (hd g) m) (Fin 12)" by (rule near)
    from near [OF m] obtain ax ay bx "by" where
      c: "m_x (hd g) = Fin ax" "m_y (hd g) = Fin ay" "m_x m = Fin bx" "m_y m = Fin by"
      by (blast dest: near_finite)
    from near [OF m] c have "sqrt ((ax - bx)\<^sup>2 + (ay - by)\<^sup>2) < 12 + 1 / 10 ^ 9"
      by (rule near_euclid)
    with c show "\<exists>ax ay bx by.
        m_x (hd g) = Fin ax \<and> m_y (hd g) = Fin ay \<and> m_x m = Fin bx \<and> m_y m = Fin by
        \<and> sqrt ((ax - bx)\<^sup>2 + (ay - by)\<^sup>2) < 12 + 1 / 10 ^ 9"
      by blast
  }
  {
    fix m assume "\<not> js_lt (dist_m (hd g) m) (Fin 12)"
    with g show "m \<notin> set (tl g)" by (rule far_marker_not_added)
  }
  fix m :: MarkerData and ax ay bx "by" :: real
  assume far: "m_x (hd g) = Fin ax \<and> m_y (hd g) = Fin ay \<and> m_x m = Fin bx \<and> m_y m = Fin by
          \<and> 12 + 1 / 10 ^ 9 \<le> sqrt ((ax - bx)\<^sup>2 + (ay - by)\<^sup>2)"
  show "m \<notin> set (tl g)"
  proof
    assume "m \<in> set (tl g)"
    then have "js_lt (dist_m (hd g) m) (Fin 12)" by (rule near)
    with far have "sqrt ((ax - bx)\<^sup>2 + (ay - by)\<^sup>2) < 12 + 1 / 10 ^ 9"
      by (intro near_euclid [of "hd g" m]) simp_all
    with far show False by simp
  qed
qed

text \<open>
  C4, at the group [A,B] of the markers A(0,0), B(10,0), C(20,0): B, at distance 10 from
  A, passed the test, and C, at distance 20 from A, is not a member.
\<close>

theorem C4_witness:
  "[mk ''A'' 0 0, mk ''B'' 10 0]
      \<in> set (cluster CLUSTER_THRESHOLD [mk ''A'' 0 0, mk ''B'' 10 0, mk ''C'' 20 0])
   \<and> js_lt (dist_m (mk ''A'' 0 0) (mk ''B'' 10 0)) (Fin 12)
   \<and> \<not> js_lt (dist_m (mk ''A'' 0 0) (mk ''C'' 20 0)) (Fin 12)
   \<and> mk ''C'' 20 0 \<notin> set (tl [mk ''A'' 0 0, mk ''B'' 10 0])"
proof -
  have run: "cluster CLUSTER_THRESHOLD [mk ''A'' 0 0, mk ''B'' 10 0, mk ''C'' 20 0]
     = [[mk ''A'' 0 0, mk ''B'' 10 0], [mk ''C'' 20 0]]"
    by (simp add: cluster_def CLUSTER_THRESHOLD_def outer_step_def inner_step_def near_mk m_id_mk)
  have g: "[mk ''A'' 0 0, mk ''B'' 10 0]
      \<in> set (cluster CLUSTER_THRESHOLD [mk ''A'' 0 0, mk ''B'' 10 0, mk ''C'' 20 0])"
    unfolding run by simp
  note c4 = C4_anchor_strict_threshold [OF g]
  from c4 have "\<forall>m\<in>set (tl [mk ''A'' 0 0, mk ''B'' 10 0]).
      js_lt (dist_m (hd [mk ''A'' 0 0, mk ''B'' 10 0]) m) (Fin 12)"
    by blast
  then have near: "js_lt (dist_m (mk ''A'' 0 0) (mk ''B'' 10 0)) (Fin 12)"
    by simp
  have far: "\<not> js_lt (dist_m (hd [mk ''A'' 0 0, mk ''B'' 10 0]) (mk ''C'' 20 0)) (Fin 12)"
    by (simp add: near_mk)
  with c4 have out: "mk ''C'' 20 0 \<notin> set (tl [mk ''A'' 0 0, mk ''B'' 10 0])"
    by blast
  from far have "\<not> js_lt (dist_m (mk ''A'' 0 0) (mk ''C'' 20 0)) (Fin 12)" by simp
  with g near out show ?thesis by blast
qed

text \<open>
  C4 as stated, of the Euclidean distance in the plane, fails by rounding. For the
  anchor A(4.8, 40.6) and B(16.742152355122737, 39.4231409910119) the pass computes the
  distance 11.999999999999998, the double below 12, and adds B to the group of A, while
  the Euclidean distance of the two points is above 12.
\<close>

theorem C4_rounding_admits_far_marker:
  "cluster CLUSTER_THRESHOLD [boundary_A, boundary_B] = [[boundary_A, boundary_B]]
   \<and> boundary_B \<in> set (tl [boundary_A, boundary_B])
   \<and> hd [boundary_A, boundary_B] = boundary_A
   \<and> dist_m boundary_A boundary_B = Fin (6755399441055743 / 2 ^ 49)
   \<and> m_x boundary_A = Fin (5404319552844595 / 2 ^ 50)
   \<and> m_y boundary_A = Fin (5713942027226317 / 2 ^ 47)
   \<and> m_x boundary_B = Fin (4712496944244427 / 2 ^ 48)
   \<and> m_y boundary_B = Fin (5548313846152991 / 2 ^ 47)
   \<and> 12 < sqrt ((5404319552844595 / 2 ^ 50 - 4712496944244427 / 2 ^ 48)\<^sup>2
               + (5713942027226317 / 2 ^ 47 - 5548313846152991 / 2 ^ 47)\<^sup>2)"
proof -
  have ids: "m_id boundary_A = ''A''" "m_id boundary_B = ''B''"
    by (simp_all add: boundary_A_def boundary_B_def m_id_mk)
  have run: "cluster CLUSTER_THRESHOLD [boundary_A, boundary_B] = [[boundary_A, boundary_B]]"
    using boundary_near
    by (simp add: cluster_def CLUSTER_THRESHOLD_def outer_step_def inner_step_def ids)
  have coords: "m_x boundary_A = Fin (5404319552844595 / 2 ^ 50)"
    "m_y boundary_A = Fin (5713942027226317 / 2 ^ 47)"
    "m_x boundary_B = Fin (4712496944244427 / 2 ^ 48)"
    "m_y boundary_B = Fin (5548313846152991 / 2 ^ 47)"
    by (simp_all add: boundary_A_def boundary_B_def mk_def)
  from run boundary_dist coords boundary_exact show ?thesis by simp
qed

subsection \<open>C5: degenerate coordinates\<close>

text \<open>
  The pass has no operation that fails on a value: membership in and insertion into the
  set, pushing onto an array, the arithmetic and the comparison are defined on every
  number, NaN and the infinities included. What could fail is reading a property
  through a reference that is not in the store, which the store model keeps as the
  result \<open>None\<close>.

  C5 (amended). On every store that holds the input array and the marker objects it
  refers to, whatever their coordinates, the pass returns, with the groups of the pass
  on values. A marker with a NaN coordinate is never in a group with another marker;
  and when it is in the list and its id occurs once among the ids of the list, it ends
  up as a group of its own.
\<close>

theorem C5_total_and_NaN_singleton:
  "(wf_input h a \<longrightarrow>
      (\<exists>h' res. cluster_heap t a h = Some (h', res)
         \<and> groups_of h' res = cluster t (markers_of h a)))
   \<and> (m_x m = NaN \<or> m_y m = NaN \<longrightarrow>
        (\<forall>g\<in>set (cluster t ms). m \<in> set g \<longrightarrow> g = [m])
        \<and> (m \<in> set ms \<and> count_list (map m_id ms) (m_id m) = 1 \<longrightarrow> [m] \<in> set (cluster t ms)))"
proof (intro conjI impI ballI)
  assume "wf_input h a"
  from cluster_heap_correct [OF this, of t]
  show "\<exists>h' res. cluster_heap t a h = Some (h', res)
         \<and> groups_of h' res = cluster t (markers_of h a)"
    by blast
next
  fix g
  assume nan: "m_x m = NaN \<or> m_y m = NaN"
    and g: "g \<in> set (cluster t ms)" "m \<in> set g"
  have a: "\<not> js_lt (dist_m m m') t" for m' using nan by (intro NaN_never_near) blast
  have b: "\<not> js_lt (dist_m m' m) t" for m' using nan by (intro NaN_never_near) blast
  from g(1) have "g \<in> set (outer_groups t ms {} ms)" by (simp only: cluster_outer_groups)
  with a b show "g = [m]" using g(2) by (rule outer_groups_isolated_group)
next
  assume nan: "m_x m = NaN \<or> m_y m = NaN"
    and once: "m \<in> set ms \<and> count_list (map m_id ms) (m_id m) = 1"
  have a: "\<not> js_lt (dist_m m m') t" for m' using nan by (intro NaN_never_near) blast
  have b: "\<not> js_lt (dist_m m' m) t" for m' using nan by (intro NaN_never_near) blast
  from once have mem: "m \<in> set ms" and cnt: "count_list (map m_id ms) (m_id m) = 1"
    by simp_all
  have c: "m' = m" if "m' \<in> set ms" "m_id m' = m_id m" for m'
    using cnt mem that by (rule count_list_one_unique)
  have "[m] \<in> set (outer_groups t ms {} ms)"
    using a b c mem by (rule outer_groups_isolated_member) simp_all
  then show "[m] \<in> set (cluster t ms)" by (simp only: cluster_outer_groups)
qed

text \<open>C5, at a store and a list with a NaN marker between two finite ones.\<close>

theorem C5_witness:
  "wf_input sample_heap_NaN 0
   \<and> (\<exists>h' res. cluster_heap (Fin 12) 0 sample_heap_NaN = Some (h', res)
         \<and> groups_of h' res = [[mk ''A'' 0 0, mk ''B'' 1 1], [mkNaN ''N'']])
   \<and> (m_x (mkNaN ''N'') = NaN \<or> m_y (mkNaN ''N'') = NaN)
   \<and> mkNaN ''N'' \<in> set [mk ''A'' 0 0, mkNaN ''N'', mk ''B'' 1 1]
   \<and> count_list (map m_id [mk ''A'' 0 0, mkNaN ''N'', mk ''B'' 1 1]) (m_id (mkNaN ''N'')) = 1
   \<and> [mkNaN ''N''] \<in> set (cluster (Fin 12) [mk ''A'' 0 0, mkNaN ''N'', mk ''B'' 1 1])"
proof -
  have wf: "wf_input sample_heap_NaN 0"
    by (simp add: wf_input_def sample_heap_NaN_def)
  have ms: "markers_of sample_heap_NaN 0 = [mk ''A'' 0 0, mkNaN ''N'', mk ''B'' 1 1]"
    by (simp add: markers_of_def sample_heap_NaN_def)
  have idN: "m_id (mkNaN ''N'') = ''N''" by (simp add: mkNaN_def)
  have run: "cluster (Fin 12) [mk ''A'' 0 0, mkNaN ''N'', mk ''B'' 1 1]
      = [[mk ''A'' 0 0, mk ''B'' 1 1], [mkNaN ''N'']]"
    by (simp add: cluster_def outer_step_def inner_step_def near_mk m_id_mk idN
          mkNaN_never_near)
  have nan: "m_x (mkNaN ''N'') = NaN \<or> m_y (mkNaN ''N'') = NaN" by (simp add: mkNaN_def)
  have mem: "mkNaN ''N'' \<in> set [mk ''A'' 0 0, mkNaN ''N'', mk ''B'' 1 1]" by simp
  have once: "count_list (map m_id [mk ''A'' 0 0, mkNaN ''N'', mk ''B'' 1 1])
      (m_id (mkNaN ''N'')) = 1"
    by (simp add: idN m_id_mk)
  note c5 = C5_total_and_NaN_singleton
    [of sample_heap_NaN 0 "Fin 12" "mkNaN ''N''" "[mk ''A'' 0 0, mkNaN ''N'', mk ''B'' 1 1]"]
  from c5 wf have "\<exists>h' res. cluster_heap (Fin 12) 0 sample_heap_NaN = Some (h', res)
         \<and> groups_of h' res = cluster (Fin 12) (markers_of sample_heap_NaN 0)"
    by blast
  then have total: "\<exists>h' res. cluster_heap (Fin 12) 0 sample_heap_NaN = Some (h', res)
         \<and> groups_of h' res = [[mk ''A'' 0 0, mk ''B'' 1 1], [mkNaN ''N'']]"
    by (simp only: ms run)
  from c5 nan mem once
  have "[mkNaN ''N''] \<in> set (cluster (Fin 12) [mk ''A'' 0 0, mkNaN ''N'', mk ''B'' 1 1])"
    by blast
  with wf total nan mem once show ?thesis by blast
qed

text \<open>
  C5 as stated, for any marker list, fails: a marker with a NaN coordinate that shares
  its id with an earlier anchor is in no group.
\<close>

theorem C5_NaN_duplicate_id_omitted:
  "m_x (mkNaN ''a'') = NaN
   \<and> mkNaN ''a'' \<in> set [mk ''a'' 0 0, mkNaN ''a'']
   \<and> cluster (Fin 12) [mk ''a'' 0 0, mkNaN ''a''] = [[mk ''a'' 0 0]]
   \<and> mkNaN ''a'' \<notin> set (concat (cluster (Fin 12) [mk ''a'' 0 0, mkNaN ''a'']))"
proof -
  have ida: "m_id (mkNaN ''a'') = ''a''" by (simp add: mkNaN_def)
  have run: "cluster (Fin 12) [mk ''a'' 0 0, mkNaN ''a''] = [[mk ''a'' 0 0]]"
    by (simp add: cluster_def outer_step_def inner_step_def m_id_mk ida)
  show ?thesis unfolding run by (simp add: mk_def mkNaN_def)
qed

subsection \<open>C6: the result depends on the marker list and the threshold only\<close>

text \<open>
  C6. Two calls with the same threshold, on stores that may differ in everything but the
  markers the two input arrays refer to, in their order, return the same groups, in
  the same order, with the same member order. In particular a second call on the store
  the first call leaves behind returns the groups of the first, and leaves the result
  of the first as it was.
\<close>

theorem C6_deterministic:
  "wf_input h a \<Longrightarrow> wf_input h' a' \<Longrightarrow> markers_of h a = markers_of h' a' \<Longrightarrow>
     \<exists>h1 r1 h1' r1' h2 r2.
       cluster_heap t a h = Some (h1, r1)
       \<and> cluster_heap t a' h' = Some (h1', r1')
       \<and> groups_of h1 r1 = groups_of h1' r1'
       \<and> cluster_heap t a h1 = Some (h2, r2)
       \<and> groups_of h2 r2 = groups_of h1 r1
       \<and> groups_of h2 r1 = groups_of h1 r1"
proof -
  assume wf: "wf_input h a" and wf': "wf_input h' a'"
    and same: "markers_of h a = markers_of h' a'"
  from cluster_heap_correct [OF wf, of t]
  obtain h1 r1 where call1: "cluster_heap t a h = Some (h1, r1)"
    and o1: "objs h1 = objs h"
    and old1: "take (length (arrs h)) (arrs h1) = arrs h"
    and r1: "r1 = length (arrs h)" "r1 < length (arrs h1)"
    and fresh1: "list_all (\<lambda>g. r1 < g \<and> g < length (arrs h1)) (arrs h1 ! r1)"
    and g1: "groups_of h1 r1 = cluster t (markers_of h a)"
    by blast
  from cluster_heap_correct [OF wf', of t]
  obtain h1' r1' where call1': "cluster_heap t a' h' = Some (h1', r1')"
    and g1': "groups_of h1' r1' = cluster t (markers_of h' a')"
    by blast
  from wf have a: "a < length (arrs h)"
    and refs: "list_all (\<lambda>r. r < length (objs h)) (arrs h ! a)"
    by (simp_all add: wf_input_def)
  from a have "arrs h1 ! a = take (length (arrs h)) (arrs h1) ! a" by simp
  with old1 have in1: "arrs h1 ! a = arrs h ! a" by simp
  from a r1 have "a < length (arrs h1)" by simp
  with refs have wf1: "wf_input h1 a" by (simp add: wf_input_def in1 o1)
  have ms1: "markers_of h1 a = markers_of h a" by (simp add: markers_of_def in1 o1)
  from cluster_heap_correct [OF wf1, of t]
  obtain h2 r2 where call2: "cluster_heap t a h1 = Some (h2, r2)"
    and o2: "objs h2 = objs h1"
    and old2: "take (length (arrs h1)) (arrs h2) = arrs h1"
    and g2: "groups_of h2 r2 = cluster t (markers_of h1 a)"
    by blast
  have keep: "arrs h2 ! b = arrs h1 ! b" if "b < length (arrs h1)" for b
  proof -
    from that have "arrs h2 ! b = take (length (arrs h1)) (arrs h2) ! b" by simp
    with old2 show ?thesis by simp
  qed
  have "markers_of h2 g = markers_of h1 g" if "g \<in> set (arrs h1 ! r1)" for g
  proof -
    from fresh1 that have "g < length (arrs h1)" by (simp add: list_all_iff)
    then show ?thesis by (simp add: markers_of_def keep o2)
  qed
  then have first: "groups_of h2 r1 = groups_of h1 r1"
    by (simp add: groups_of_def keep [OF r1(2)])
  from g2 have second: "groups_of h2 r2 = groups_of h1 r1" by (simp only: ms1 g1)
  from g1 g1' same have both: "groups_of h1 r1 = groups_of h1' r1'" by simp
  from call1 call1' both call2 second first show ?thesis by blast
qed

text \<open>
  C6, at two stores that hold the markers A(0,0), B(10,0), C(20,0) at different
  addresses.
\<close>

theorem C6_witness:
  "wf_input sample_heap 0 \<and> wf_input sample_heap_moved 1
   \<and> markers_of sample_heap 0 = markers_of sample_heap_moved 1
   \<and> (\<exists>h1 r1 h1' r1'.
         cluster_heap (Fin 12) 0 sample_heap = Some (h1, r1)
         \<and> cluster_heap (Fin 12) 1 sample_heap_moved = Some (h1', r1')
         \<and> groups_of h1 r1 = groups_of h1' r1')"
proof -
  have wf: "wf_input sample_heap 0"
    by (simp add: wf_input_def sample_heap_def)
  have wf': "wf_input sample_heap_moved 1"
    by (simp add: wf_input_def sample_heap_moved_def)
  have same: "markers_of sample_heap 0 = markers_of sample_heap_moved 1"
    by (simp add: markers_of_def sample_heap_def sample_heap_moved_def)
  from C6_deterministic [OF wf wf' same, of "Fin 12"]
  have "\<exists>h1 r1 h1' r1'.
         cluster_heap (Fin 12) 0 sample_heap = Some (h1, r1)
         \<and> cluster_heap (Fin 12) 1 sample_heap_moved = Some (h1', r1')
         \<and> groups_of h1 r1 = groups_of h1' r1'"
    by blast
  with wf wf' same show ?thesis by blast
qed

subsection \<open>C7: the pass writes only to arrays it has allocated\<close>

text \<open>
  C7. Run on a store in which the input array and the marker objects it refers to
  exist, the pass returns; afterwards every marker object is as it was, every array
  that existed before the call, the input list among them, is as it was, and the result
  array and the group arrays it refers to are arrays allocated by the call. The groups
  the result refers to are the groups of the pass on values.
\<close>

theorem C7_input_not_mutated:
  "wf_input h a \<Longrightarrow>
     \<exists>h' res. cluster_heap t a h = Some (h', res)
       \<and> objs h' = objs h
       \<and> take (length (arrs h)) (arrs h') = arrs h
       \<and> arrs h' ! a = arrs h ! a
       \<and> length (arrs h) \<le> res \<and> res < length (arrs h')
       \<and> list_all (\<lambda>g. length (arrs h) \<le> g \<and> g < length (arrs h')) (arrs h' ! res)
       \<and> groups_of h' res = cluster t (markers_of h a)"
proof -
  assume wf: "wf_input h a"
  then have a: "a < length (arrs h)" by (simp add: wf_input_def)
  from cluster_heap_correct [OF wf, of t]
  obtain h' res where call: "cluster_heap t a h = Some (h', res)"
    and o: "objs h' = objs h"
    and old: "take (length (arrs h)) (arrs h') = arrs h"
    and res: "res = length (arrs h)" "res < length (arrs h')"
    and fresh: "list_all (\<lambda>g. res < g \<and> g < length (arrs h')) (arrs h' ! res)"
    and groups: "groups_of h' res = cluster t (markers_of h a)"
    by blast
  from a have "arrs h' ! a = take (length (arrs h)) (arrs h') ! a" by simp
  with old have input: "arrs h' ! a = arrs h ! a" by simp
  from fresh res(1)
  have fresh': "list_all (\<lambda>g. length (arrs h) \<le> g \<and> g < length (arrs h')) (arrs h' ! res)"
    by (auto simp: list_all_iff)
  from call o old input res fresh' groups show ?thesis by simp
qed

text \<open>C7, at a store holding A(0,0), B(10,0), C(20,0) and the input array of the three.\<close>

theorem C7_witness:
  "wf_input sample_heap 0
   \<and> (\<exists>h' res. cluster_heap (Fin 12) 0 sample_heap = Some (h', res)
         \<and> objs h' = [mk ''A'' 0 0, mk ''B'' 10 0, mk ''C'' 20 0]
         \<and> arrs h' ! 0 = [0, 1, 2]
         \<and> groups_of h' res = [[mk ''A'' 0 0, mk ''B'' 10 0], [mk ''C'' 20 0]])"
proof -
  have wf: "wf_input sample_heap 0"
    by (simp add: wf_input_def sample_heap_def)
  have ms: "markers_of sample_heap 0 = [mk ''A'' 0 0, mk ''B'' 10 0, mk ''C'' 20 0]"
    by (simp add: markers_of_def sample_heap_def)
  have run: "cluster (Fin 12) [mk ''A'' 0 0, mk ''B'' 10 0, mk ''C'' 20 0]
       = [[mk ''A'' 0 0, mk ''B'' 10 0], [mk ''C'' 20 0]]"
    by (simp add: cluster_def outer_step_def inner_step_def near_mk m_id_mk)
  from C7_input_not_mutated [OF wf, of "Fin 12"]
  obtain h' res where "cluster_heap (Fin 12) 0 sample_heap = Some (h', res)"
    and "objs h' = objs sample_heap" and "arrs h' ! 0 = arrs sample_heap ! 0"
    and "groups_of h' res = cluster (Fin 12) (markers_of sample_heap 0)"
    by blast
  then have "cluster_heap (Fin 12) 0 sample_heap = Some (h', res)
         \<and> objs h' = [mk ''A'' 0 0, mk ''B'' 10 0, mk ''C'' 20 0]
         \<and> arrs h' ! 0 = [0, 1, 2]
         \<and> groups_of h' res = [[mk ''A'' 0 0, mk ''B'' 10 0], [mk ''C'' 20 0]]"
    unfolding ms run by (simp add: sample_heap_def)
  with wf show ?thesis by blast
qed

subsection \<open>C8: the memo passes at most ten markers\<close>

text \<open>
  C8. The marker list the memo builds has at most ten elements: it has one marker for
  each of the history entries 1 to 10, in their order, carrying their ids. The memo
  returns the empty list or the result of the pass on this list.
\<close>

theorem C8_at_most_ten_markers:
  "length (historyMarkers history) \<le> 10
   \<and> length (historyMarkers history) = min 10 (length history - 1)
   \<and> map m_id (historyMarkers history) = map h_id (take 10 (drop 1 history))
   \<and> (clusters loading imageLoading history = []
        \<or> clusters loading imageLoading history
             = cluster CLUSTER_THRESHOLD (historyMarkers history))"
proof -
  have "map (m_id \<circ> mkMarker) (enumerate n xs) = map h_id xs" for n xs
    by (induction xs arbitrary: n) (simp_all add: mkMarker_def)
  then have markers: "length (historyMarkers history) \<le> 10
      \<and> length (historyMarkers history) = min 10 (length history - 1)
      \<and> map m_id (historyMarkers history) = map h_id (take 10 (drop 1 history))"
    by (simp add: historyMarkers_def slice_def)
  have "clusters loading imageLoading history = []
        \<or> clusters loading imageLoading history
             = cluster CLUSTER_THRESHOLD (historyMarkers history)"
    by (simp add: clusters_def)
  with markers show ?thesis by simp
qed

subsection \<open>C9: order of the groups and of their members\<close>

text \<open>
  C9. For an input with pairwise distinct ids: within every group the members stand in
  the order of their input positions; the first member of a group, its anchor, has the
  least input position of the group; and the anchors of the groups stand in the order
  of their input positions. Groups and the list of anchors are subsequences of the
  input.
\<close>

theorem C9_output_order:
  "distinct (map m_id ms) \<Longrightarrow>
     (\<forall>g\<in>set (cluster t ms).
        subseq g ms
        \<and> sorted_wrt (\<lambda>a b. input_pos ms a < input_pos ms b) g
        \<and> (\<forall>m\<in>set g. input_pos ms (hd g) \<le> input_pos ms m))
     \<and> subseq (map hd (cluster t ms)) ms
     \<and> sorted_wrt (\<lambda>a b. input_pos ms a < input_pos ms b) (map hd (cluster t ms))"
proof (intro conjI ballI)
  assume "distinct (map m_id ms)"
  then have d: "distinct ms" by (simp add: distinct_map)
  show anchors: "subseq (map hd (cluster t ms)) ms"
    using cluster_subseq by blast
  from d anchors
  show "sorted_wrt (\<lambda>a b. input_pos ms a < input_pos ms b) (map hd (cluster t ms))"
    by (rule subseq_sorted_input_pos)
  fix g assume g: "g \<in> set (cluster t ms)"
  then show sub: "subseq g ms" using cluster_subseq by blast
  from d sub show sorted: "sorted_wrt (\<lambda>a b. input_pos ms a < input_pos ms b) g"
    by (rule subseq_sorted_input_pos)
  fix m assume m: "m \<in> set g"
  then obtain a rest where ar: "g = a # rest" by (cases g) auto
  with sorted have "\<forall>b\<in>set rest. input_pos ms a < input_pos ms b" by simp
  with m ar show "input_pos ms (hd g) \<le> input_pos ms m" by auto
qed

text \<open>C9, at the markers A(0,0), B(10,0), C(20,0) with threshold 12.\<close>

theorem C9_witness:
  "distinct (map m_id [mk ''A'' 0 0, mk ''B'' 10 0, mk ''C'' 20 0])
   \<and> cluster (Fin 12) [mk ''A'' 0 0, mk ''B'' 10 0, mk ''C'' 20 0]
       = [[mk ''A'' 0 0, mk ''B'' 10 0], [mk ''C'' 20 0]]
   \<and> subseq (map hd (cluster (Fin 12) [mk ''A'' 0 0, mk ''B'' 10 0, mk ''C'' 20 0]))
       [mk ''A'' 0 0, mk ''B'' 10 0, mk ''C'' 20 0]
   \<and> sorted_wrt (\<lambda>a b. input_pos [mk ''A'' 0 0, mk ''B'' 10 0, mk ''C'' 20 0] a
                      < input_pos [mk ''A'' 0 0, mk ''B'' 10 0, mk ''C'' 20 0] b)
       (map hd (cluster (Fin 12) [mk ''A'' 0 0, mk ''B'' 10 0, mk ''C'' 20 0]))"
proof -
  have d: "distinct (map m_id [mk ''A'' 0 0, mk ''B'' 10 0, mk ''C'' 20 0])"
    by (simp add: m_id_mk)
  have run: "cluster (Fin 12) [mk ''A'' 0 0, mk ''B'' 10 0, mk ''C'' 20 0]
       = [[mk ''A'' 0 0, mk ''B'' 10 0], [mk ''C'' 20 0]]"
    by (simp add: cluster_def outer_step_def inner_step_def near_mk m_id_mk)
  from C9_output_order [OF d, of "Fin 12"] d run show ?thesis by simp
qed

subsection \<open>C10: one marker per id\<close>

text \<open>
  C10 (amended). The used set is keyed on the marker id: the groups hold exactly one
  marker for each id of the input, taken from the input, so of several markers with the
  same id all but one are in no group; the groups together hold every input marker
  exactly once if and only if the ids of the input are pairwise distinct.
\<close>

theorem C10_one_marker_per_id:
  "distinct (map m_id (concat (cluster t ms)))
   \<and> m_id ` set (concat (cluster t ms)) = m_id ` set ms
   \<and> set (concat (cluster t ms)) \<subseteq> set ms
   \<and> (mset (concat (cluster t ms)) = mset ms) = distinct (map m_id ms)"
proof (intro conjI)
  show "distinct (map m_id (concat (cluster t ms)))" by (rule cluster_distinct_ids)
  show "m_id ` set (concat (cluster t ms)) = m_id ` set ms" by (rule cluster_ids)
  show "set (concat (cluster t ms)) \<subseteq> set ms" by (rule cluster_subset)
  show "(mset (concat (cluster t ms)) = mset ms) = distinct (map m_id ms)"
    by (rule cluster_mset_iff)
qed

text \<open>
  C10 as stated fails: the marker that stays out need not be the later one. Here the
  later of the two markers with id b is claimed by the anchor A before the earlier one
  is reached, and the earlier one is then skipped.
\<close>

theorem C10_later_duplicate_kept:
  "m_id (mk ''b'' 50 50) = m_id (mk ''b'' 1 1)
   \<and> cluster (Fin 12) [mk ''a'' 0 0, mk ''b'' 50 50, mk ''b'' 1 1] = [[mk ''a'' 0 0, mk ''b'' 1 1]]
   \<and> mk ''b'' 1 1 \<in> set (concat (cluster (Fin 12) [mk ''a'' 0 0, mk ''b'' 50 50, mk ''b'' 1 1]))
   \<and> mk ''b'' 50 50 \<notin> set (concat (cluster (Fin 12) [mk ''a'' 0 0, mk ''b'' 50 50, mk ''b'' 1 1]))"
proof -
  have run: "cluster (Fin 12) [mk ''a'' 0 0, mk ''b'' 50 50, mk ''b'' 1 1]
      = [[mk ''a'' 0 0, mk ''b'' 1 1]]"
    by (simp add: cluster_def outer_step_def inner_step_def near_mk m_id_mk)
  show ?thesis unfolding run by (simp add: mk_def)
qed

end
